theory Spec2Isabelle
  imports Complex_Main "HOL-Library.AList"
begin

section \<open>Consistent-hash ring (consistent\_hash.py)\<close>

text \<open>
  Python values are modelled as follows.  A node (worker endpoint) and a key are strings.
  \<open>hashlib.md5\<close> is a library function: the ring is parametrised by the hash
  \<open>H\<close> that \<open>_hash\<close> computes, a Python int (for md5 a number from 0 up to,
  but not including, \<open>2 ^ 128\<close>).
  The dict \<open>self.ring\<close> is an association list in insertion order with unique keys,
  written with \<open>AList.update\<close> (assignment to a key keeps the position of a key that is
  already there) and \<open>AList.delete\<close>.  The set \<open>self.nodes\<close> is a list without
  duplicates; the order of \<open>list(self.nodes)\<close> is whatever order this list has, and no
  theorem below depends on it.  Exceptions are values of \<open>py_error\<close>.
\<close>

type_synonym node = string

datatype py_error = IndexError | KeyError

record hash_ring =
  virtual_nodes :: int
  ring :: "(int \<times> node) list"
  sorted_keys :: "int list"
  nodes :: "node list"

text \<open>\<open>str(i)\<close> for a non-negative integer: its decimal digits.\<close>

fun str_nat :: "nat \<Rightarrow> string" where
  "str_nat n =
     (if n < 10 then [char_of (48 + n)]
      else str_nat (n div 10) @ [char_of (48 + n mod 10)])"

declare str_nat.simps [simp del]

text \<open>The f-string \<open>f"{node}#{i}"\<close>.\<close>

definition virtual_key :: "node \<Rightarrow> nat \<Rightarrow> string" where
  "virtual_key node i = node @ ''#'' @ str_nat i"

text \<open>\<open>range(n)\<close> for a Python int: empty when \<open>n \<le> 0\<close>.\<close>

definition py_range :: "int \<Rightarrow> nat list" where
  "py_range n = [0 ..< nat n]"

text \<open>\<open>ConsistentHash.__init__\<close> before the loop over \<open>nodes\<close>.\<close>

definition empty_ring :: "int \<Rightarrow> hash_ring" where
  "empty_ring v = \<lparr>virtual_nodes = v, ring = [], sorted_keys = [], nodes = []\<rparr>"

definition add_node :: "(string \<Rightarrow> int) \<Rightarrow> node \<Rightarrow> hash_ring \<Rightarrow> hash_ring" where
  "add_node H node r =
     (if node \<in> set (nodes r) then r
      else
        let ring' = fold (\<lambda>i m. AList.update (H (virtual_key node i)) node m)
                      (py_range (virtual_nodes r)) (ring r)
        in r\<lparr>nodes := nodes r @ [node], ring := ring', sorted_keys := sort (map fst ring')\<rparr>)"

definition remove_node :: "(string \<Rightarrow> int) \<Rightarrow> node \<Rightarrow> hash_ring \<Rightarrow> hash_ring" where
  "remove_node H node r =
     (if node \<notin> set (nodes r) then r
      else
        let ring' = fold (\<lambda>i m. let hash_value = H (virtual_key node i)
                               in if hash_value \<in> set (map fst m)
                                  then AList.delete hash_value m else m)
                      (py_range (virtual_nodes r)) (ring r)
        in r\<lparr>nodes := removeAll node (nodes r), ring := ring',
             sorted_keys := sort (map fst ring')\<rparr>)"

text \<open>
  \<open>bisect.bisect_right(a, x)\<close> of the standard library: the binary search
  \<^verbatim>\<open>while lo < hi: mid = (lo + hi) // 2; if x < a[mid]: hi = mid else: lo = mid + 1\<close>
  started at \<open>lo = 0\<close>, \<open>hi = len(a)\<close>.
\<close>

function bisect_loop :: "int list \<Rightarrow> int \<Rightarrow> nat \<Rightarrow> nat \<Rightarrow> nat" where
  "bisect_loop a x lo hi =
     (if lo < hi then
        let mid = (lo + hi) div 2
        in if x < a ! mid then bisect_loop a x lo mid else bisect_loop a x (mid + 1) hi
      else lo)"
  by pat_completeness auto
termination
  by (relation "measure (\<lambda>(a, x, lo, hi). hi - lo)") auto

declare bisect_loop.simps [simp del]

definition bisect_right :: "int list \<Rightarrow> int \<Rightarrow> nat" where
  "bisect_right a x = bisect_loop a x 0 (length a)"

text \<open>
  \<open>get_node\<close>: Python's \<open>None\<close> is \<open>Inr None\<close>; an index outside
  \<open>sorted_keys\<close> or a key missing from the dict raises.
\<close>

definition get_node :: "(string \<Rightarrow> int) \<Rightarrow> string \<Rightarrow> hash_ring \<Rightarrow> py_error + node option" where
  "get_node H key r =
     (if ring r = [] then Inr None
      else
        let hash_value = H key;
            index = bisect_right (sorted_keys r) hash_value;
            index = (if index = length (sorted_keys r) then 0 else index)
        in if index < length (sorted_keys r)
           then (case map_of (ring r) (sorted_keys r ! index) of
                   None \<Rightarrow> Inl KeyError
                 | Some n \<Rightarrow> Inr (Some n))
           else Inl IndexError)"

definition get_nodes :: "hash_ring \<Rightarrow> node list" where
  "get_nodes r = nodes r"

text \<open>
  \<open>ConsistentHash(nodes, virtual_nodes)\<close>: the constructor adds the given nodes in
  order.  A ring is then changed by \<open>add_node\<close> and \<open>remove_node\<close> only.
\<close>

definition new_ring :: "(string \<Rightarrow> int) \<Rightarrow> node list \<Rightarrow> int \<Rightarrow> hash_ring" where
  "new_ring H ns v = fold (add_node H) ns (empty_ring v)"

datatype ring_op = Add node | Remove node

fun apply_op :: "(string \<Rightarrow> int) \<Rightarrow> ring_op \<Rightarrow> hash_ring \<Rightarrow> hash_ring" where
  "apply_op H (Add n) r = add_node H n r"
| "apply_op H (Remove n) r = remove_node H n r"

definition apply_ops :: "(string \<Rightarrow> int) \<Rightarrow> ring_op list \<Rightarrow> hash_ring \<Rightarrow> hash_ring" where
  "apply_ops H ops r = fold (apply_op H) ops r"

text \<open>The hash values of the virtual nodes of one endpoint, for \<open>v\<close> virtual nodes.\<close>

definition node_hashes :: "(string \<Rightarrow> int) \<Rightarrow> int \<Rightarrow> node \<Rightarrow> int list" where
  "node_hashes H v n = map (\<lambda>i. H (virtual_key n i)) (py_range v)"

text \<open>
  The invariant of a ring that \<open>add_node\<close> and \<open>remove_node\<close> maintain: the
  dict has unique keys, \<open>sorted_keys\<close> is the sorted list of the dict's keys, the member
  set has no duplicates, and every dict entry belongs to a member and sits at the hash of one
  of that member's virtual keys.
\<close>

definition ring_inv :: "(string \<Rightarrow> int) \<Rightarrow> hash_ring \<Rightarrow> bool" where
  "ring_inv H r \<longleftrightarrow>
     distinct (map fst (ring r)) \<and> sorted_keys r = sort (map fst (ring r)) \<and>
     distinct (nodes r) \<and>
     (\<forall>(k, n) \<in> set (ring r).
        n \<in> set (nodes r) \<and> k \<in> set (node_hashes H (virtual_nodes r) n))"

text \<open>
  The specification's lookup target, in its own words: the smallest ring hash strictly
  greater than \<open>h\<close>, or the smallest ring hash of all when none is greater.
\<close>

definition successor_hash :: "int list \<Rightarrow> int \<Rightarrow> int" where
  "successor_hash ks h =
     (let above = filter (\<lambda>s. h < s) ks
      in if above = [] then Min (set ks) else Min (set above))"

text \<open>
  Hypotheses on the hash.  \<open>collision_free\<close>: two virtual nodes of different endpoints
  of \<open>ns\<close> never share a hash value.  \<open>hashes_distinct\<close>: moreover the virtual
  nodes of one endpoint have different hash values.
\<close>

definition collision_free :: "(string \<Rightarrow> int) \<Rightarrow> int \<Rightarrow> node set \<Rightarrow> bool" where
  "collision_free H v ns \<longleftrightarrow>
     (\<forall>a \<in> ns. \<forall>b \<in> ns. a \<noteq> b \<longrightarrow>
        set (node_hashes H v a) \<inter> set (node_hashes H v b) = {})"

definition hashes_distinct :: "(string \<Rightarrow> int) \<Rightarrow> int \<Rightarrow> node set \<Rightarrow> bool" where
  "hashes_distinct H v ns \<longleftrightarrow>
     collision_free H v ns \<and> (\<forall>n \<in> ns. distinct (node_hashes H v n))"

text \<open>The endpoints that a sequence of ring operations names.\<close>

fun op_node :: "ring_op \<Rightarrow> node" where
  "op_node (Add n) = n"
| "op_node (Remove n) = n"

text \<open>
  Two hash functions for examples: the bytes of the string read as a number in base 256,
  and the length of the string, under which the virtual keys \<open>A#0\<close> and \<open>B#0\<close>
  collide.
\<close>

definition byte_hash :: "string \<Rightarrow> int" where
  "byte_hash s = foldl (\<lambda>a c. 256 * a + of_char c) 0 s"

definition length_hash :: "string \<Rightarrow> int" where
  "length_hash s = int (length s)"

section \<open>Router (gateway.py)\<close>

text \<open>
  The request body is opaque apart from the optional \<open>request_id\<close>.  One forward is
  \<open>urlopen\<close> of \<open>node + "/infer"\<close> followed by \<open>json.loads\<close>; the
  transport is the parameter \<open>net\<close>, which gives the outcome of a forward to a URL:
  a decoded response; a \<open>urllib.error.URLError\<close> with its message \<open>str(e)\<close>
  (what \<open>urlopen\<close> raises when it cannot connect or send, or gets an HTTP error
  status); a transport error that the library does not wrap in \<open>URLError\<close>
  (\<open>SocketError\<close>: a timeout or a closed connection while the response is read, such as
  \<open>socket.timeout\<close> or \<open>http.client.RemoteDisconnected\<close>); or any other exception,
  such as a response body that is not JSON.  The health checks of \<open>__init__\<close> only
  print and are left out.
  \<open>route_request\<close> returns, next to its result, the list of nodes it has forwarded to,
  in order.
\<close>

record 'p request_data =
  request_id :: "string option"
  body :: 'p

datatype 'a urlopen_result =
    Response 'a
  | URLError string
  | SocketError string
  | OtherException string

datatype route_error =
    NoWorkersAvailable
  | AllWorkersFailed string
  | Uncaught string
  | LookupError py_error

record gateway =
  workers :: "node list"
  hash_ring :: hash_ring
  request_count :: nat

definition Gateway :: "(string \<Rightarrow> int) \<Rightarrow> node list \<Rightarrow> gateway" where
  "Gateway H ws = \<lparr>workers = ws, hash_ring = new_ring H ws 150, request_count = 0\<rparr>"

text \<open>\<open>request_data.get('request_id', f'req_{self.request_count}')\<close>, after the increment.\<close>

definition request_key :: "'p request_data \<Rightarrow> nat \<Rightarrow> string" where
  "request_key req count =
     (case request_id req of Some i \<Rightarrow> i | None \<Rightarrow> ''req_'' @ str_nat count)"

text \<open>The retry loop over \<open>self.hash_ring.get_nodes()\<close>; a bare \<open>except\<close> continues.\<close>

fun failover ::
  "(string \<Rightarrow> 'p request_data \<Rightarrow> 'a urlopen_result) \<Rightarrow> 'p request_data \<Rightarrow> node \<Rightarrow>
   node list \<Rightarrow> 'a option \<times> node list" where
  "failover net req target_node [] = (None, [])"
| "failover net req target_node (node # rest) =
     (if node \<noteq> target_node then
        (case net (node @ ''/infer'') req of
           Response result \<Rightarrow> (Some result, [node])
         | _ \<Rightarrow> (let (res, tried) = failover net req target_node rest
                in (res, node # tried)))
      else failover net req target_node rest)"

definition route_request ::
  "(string \<Rightarrow> 'p request_data \<Rightarrow> 'a urlopen_result) \<Rightarrow> (string \<Rightarrow> int) \<Rightarrow>
   'p request_data \<Rightarrow> gateway \<Rightarrow> (route_error + 'a) \<times> node list \<times> gateway" where
  "route_request net H req g =
     (let g' = g\<lparr>request_count := request_count g + 1\<rparr>;
          key = request_key req (request_count g')
      in case get_node H key (hash_ring g') of
           Inl err \<Rightarrow> (Inl (LookupError err), [], g')
         | Inr None \<Rightarrow> (Inl NoWorkersAvailable, [], g')
         | Inr (Some target_node) \<Rightarrow>
             if target_node = [] then (Inl NoWorkersAvailable, [], g')
             else
               (case net (target_node @ ''/infer'') req of
                  Response result \<Rightarrow> (Inr result, [target_node], g')
                | SocketError msg \<Rightarrow> (Inl (Uncaught msg), [target_node], g')
                | OtherException msg \<Rightarrow> (Inl (Uncaught msg), [target_node], g')
                | URLError msg \<Rightarrow>
                    (case failover net req target_node (get_nodes (hash_ring g')) of
                       (Some result, tried) \<Rightarrow> (Inr result, target_node # tried, g')
                     | (None, tried) \<Rightarrow>
                         (Inl (AllWorkersFailed msg), target_node # tried, g'))))"

definition gateway_inv :: "(string \<Rightarrow> int) \<Rightarrow> gateway \<Rightarrow> bool" where
  "gateway_inv H g \<longleftrightarrow>
     ring_inv H (hash_ring g) \<and> set (nodes (hash_ring g)) = set (workers g)"

section \<open>Batch coalescer (batch\_processor.py)\<close>

text \<open>
  Requests and results are values of one type \<open>'a\<close> (the default compute function
  returns the requests themselves).  A value put on a result queue is either a result or the
  dict \<open>{"error": str(e)}\<close>.  Every \<open>Queue(maxsize=1)\<close> that \<open>process\<close>
  creates is a fresh number; \<open>slots\<close> gives, for each such queue, the values put on it so
  far, oldest first.  \<open>process_fn\<close> returns a list, raises an exception of class
  \<open>Exception\<close> (\<open>Raised\<close>, with \<open>str(e)\<close>), or raises one outside that class
  (\<open>RaisedBase\<close>: \<open>SystemExit\<close>, \<open>KeyboardInterrupt\<close>, \<open>GeneratorExit\<close>), which
  \<open>except Exception\<close> does not catch.
  Clock readings of \<open>time.perf_counter()\<close> are real numbers supplied from outside.
\<close>

record batch_metrics =
  total_requests :: int
  total_batches :: int
  avg_batch_size :: real
  timeout_batches :: int
  full_batches :: int

datatype 'a slot_value = Result 'a | ErrorDict string

datatype 'a fn_result = Returned "'a list" | Raised string | RaisedBase string

text \<open>
  The local variables of one run of \<open>_processing_loop\<close>, with a program counter: at
  the test of \<open>while self.running\<close>, inside \<open>self.request_queue.get(timeout=...)\<close>
  with the timeout it was called with (\<open>None\<close> would be a wait without deadline),
  returned, or ended by an exception that nothing in the loop catches.
\<close>

datatype loop_pc = AtLoopTest | InGet "real option" | Exited | Died

record 'a loop_state =
  pc :: loop_pc
  batch :: "'a list"
  result_queues :: "nat list"
  last_batch_time :: real

text \<open>
  The processor.  \<open>timeout_ms\<close> holds seconds, as in the source.  \<open>threads\<close> are
  the dispatch threads started so far (\<open>self.worker_thread\<close> is the last).
  \<open>dispatched\<close> is a history of the calls of \<open>_process_batch\<close> that got past the
  empty-batch guard: the batch, its result queues and the \<open>timeout\<close> flag.
\<close>

record 'a batch_processor =
  max_batch_size :: int
  timeout_ms :: real
  process_fn :: "('a list \<Rightarrow> 'a fn_result) option"
  request_queue :: "('a \<times> nat) list"
  metrics :: batch_metrics
  running :: bool
  threads :: "'a loop_state list"
  slots :: "nat \<Rightarrow> 'a slot_value list"
  next_slot :: nat
  dispatched :: "('a list \<times> nat list \<times> bool) list"

definition BatchProcessor ::
  "int \<Rightarrow> real \<Rightarrow> ('a list \<Rightarrow> 'a fn_result) option \<Rightarrow> 'a batch_processor" where
  "BatchProcessor max_size timeout fn =
     \<lparr>max_batch_size = max_size, timeout_ms = timeout / 1000, process_fn = fn,
      request_queue = [],
      metrics = \<lparr>total_requests = 0, total_batches = 0, avg_batch_size = 0,
                  timeout_batches = 0, full_batches = 0\<rparr>,
      running = False, threads = [], slots = (\<lambda>q. []), next_slot = 0, dispatched = []\<rparr>"

text \<open>\<open>start\<close>; the new thread reads the clock once before its loop.\<close>

definition start :: "real \<Rightarrow> 'a batch_processor \<Rightarrow> 'a batch_processor" where
  "start now s =
     (if running s then s
      else s\<lparr>running := True,
             threads := threads s @
               [\<lparr>pc = AtLoopTest, batch = [], result_queues = [], last_batch_time = now\<rparr>]\<rparr>)"

text \<open>\<open>stop\<close>; \<open>join(timeout=2.0)\<close> only waits.\<close>

definition stop :: "'a batch_processor \<Rightarrow> 'a batch_processor" where
  "stop s = s\<lparr>running := False\<rparr>"

text \<open>
  \<open>process\<close> up to the wait: a fresh result queue, the put on the request queue and the
  count.  It returns the queue it then waits on.
\<close>

definition process_enqueue :: "'a \<Rightarrow> 'a batch_processor \<Rightarrow> nat \<times> 'a batch_processor" where
  "process_enqueue request s =
     (let result_queue = next_slot s
      in (result_queue,
          s\<lparr>next_slot := next_slot s + 1,
            request_queue := request_queue s @ [(request, result_queue)],
            metrics := (metrics s)\<lparr>total_requests := total_requests (metrics s) + 1\<rparr>\<rparr>))"

text \<open>
  The end of \<open>process\<close>, when \<open>result_queue.get(timeout=10.0)\<close> returns or gives up:
  \<open>None\<close> is \<open>TimeoutError("Request processing timeout")\<close>.
\<close>

definition process_wait :: "nat \<Rightarrow> 'a batch_processor \<Rightarrow> 'a slot_value option" where
  "process_wait result_queue s =
     (case slots s result_queue of [] \<Rightarrow> None | v # rest \<Rightarrow> Some v)"

text \<open>
  A loop of \<open>result_queue.put(result)\<close> over pairs.  A \<open>put\<close> on a queue of size 1
  that still holds a value would block; the model records every value put, and the
  delivery invariant below shows that no queue ever receives a second one.
\<close>

fun put_results ::
  "('a slot_value \<times> nat) list \<Rightarrow> (nat \<Rightarrow> 'a slot_value list) \<Rightarrow> nat \<Rightarrow> 'a slot_value list" where
  "put_results [] sl = sl"
| "put_results ((v, q) # rest) sl = put_results rest (sl(q := sl q @ [v]))"

text \<open>\<open>self.process_fn(batch)\<close>, or the batch itself when there is no function.\<close>

definition compute :: "('a list \<Rightarrow> 'a fn_result) option \<Rightarrow> 'a list \<Rightarrow> 'a fn_result" where
  "compute fn b = (case fn of Some f \<Rightarrow> f b | None \<Rightarrow> Returned b)"

definition update_metrics :: "nat \<Rightarrow> bool \<Rightarrow> batch_metrics \<Rightarrow> batch_metrics" where
  "update_metrics batch_size timeout m =
     (let m1 = m\<lparr>total_batches := total_batches m + 1\<rparr>;
          prev_total = avg_batch_size m1 * real_of_int (total_batches m1 - 1);
          m2 = m1\<lparr>avg_batch_size :=
                    (prev_total + real batch_size) / real_of_int (total_batches m1)\<rparr>
      in if timeout then m2\<lparr>timeout_batches := timeout_batches m2 + 1\<rparr>
         else m2\<lparr>full_batches := full_batches m2 + 1\<rparr>)"

text \<open>
  \<open>_process_batch\<close> returns the state it leaves and the exception that escapes it, if
  any: the handler is \<open>except Exception\<close>, so an exception outside that class passes
  through with no result queue written.
\<close>

definition process_batch ::
  "'a list \<Rightarrow> nat list \<Rightarrow> bool \<Rightarrow> 'a batch_processor \<Rightarrow> 'a batch_processor \<times> string option" where
  "process_batch b qs timeout s =
     (if b = [] then (s, None)
      else
        let s1 = s\<lparr>dispatched := dispatched s @ [(b, qs, timeout)]\<rparr>
        in case compute (process_fn s1) b of
             Returned results \<Rightarrow>
               (s1\<lparr>slots := put_results (zip (map Result results) qs) (slots s1),
                   metrics := update_metrics (length b) timeout (metrics s1)\<rparr>, None)
           | Raised e \<Rightarrow>
               (s1\<lparr>slots := put_results (map (\<lambda>q. (ErrorDict e, q)) qs) (slots s1)\<rparr>, None)
           | RaisedBase e \<Rightarrow> (s1, Some e))"

text \<open>
  The dispatch thread after a call of \<open>_process_batch\<close>.  When the call returns, the
  loop starts an empty batch and reads the clock.  When an exception escapes the call,
  nothing catches it (the loop catches \<open>Empty\<close> only): the thread ends, and its batch is
  lost with it.
\<close>

definition after_dispatch :: "real \<Rightarrow> 'a loop_state \<Rightarrow> string option \<Rightarrow> 'a loop_state" where
  "after_dispatch now th exc =
     (case exc of
        None \<Rightarrow> \<lparr>pc = AtLoopTest, batch = [], result_queues = [], last_batch_time = now\<rparr>
      | Some e \<Rightarrow> \<lparr>pc = Died, batch = [], result_queues = [],
                    last_batch_time = last_batch_time th\<rparr>)"

text \<open>
  One dispatch thread's steps.  \<open>loop_test\<close>: the \<open>while\<close> test and the statements
  up to the call of \<open>get\<close>.  \<open>loop_got\<close>: \<open>get\<close> returns the head of the request
  queue.  \<open>loop_empty\<close>: \<open>get\<close> raises \<open>Empty\<close>, which it does only on an empty
  request queue.  Each takes the clock reading the step makes.
\<close>

fun in_get :: "loop_pc \<Rightarrow> bool" where
  "in_get (InGet t) = True"
| "in_get AtLoopTest = False"
| "in_get Exited = False"
| "in_get Died = False"

definition loop_test :: "real \<Rightarrow> nat \<Rightarrow> 'a batch_processor \<Rightarrow> 'a batch_processor" where
  "loop_test now i s =
     (if i < length (threads s) \<and> pc (threads s ! i) = AtLoopTest then
        let th = threads s ! i
        in if running s then
             let elapsed = now - last_batch_time th;
                 timeout_remaining = max 0 (timeout_ms s - elapsed)
             in s\<lparr>threads := (threads s)[i := th\<lparr>pc := InGet (Some timeout_remaining)\<rparr>]\<rparr>
           else s\<lparr>threads := (threads s)[i := th\<lparr>pc := Exited\<rparr>]\<rparr>
      else s)"

definition loop_got :: "real \<Rightarrow> nat \<Rightarrow> 'a batch_processor \<Rightarrow> 'a batch_processor" where
  "loop_got now i s =
     (if i < length (threads s) \<and> in_get (pc (threads s ! i)) then
        (case request_queue s of
           [] \<Rightarrow> s
         | (request, result_queue) # rest \<Rightarrow>
             let th = threads s ! i;
                 b = batch th @ [request];
                 qs = result_queues th @ [result_queue];
                 s1 = s\<lparr>request_queue := rest\<rparr>
             in if int (length b) \<ge> max_batch_size s1 then
                  let (s2, exc) = process_batch b qs False s1
                  in s2\<lparr>threads := (threads s2)[i := after_dispatch now th exc]\<rparr>
                else s1\<lparr>threads := (threads s1)[i :=
                         th\<lparr>pc := AtLoopTest, batch := b, result_queues := qs\<rparr>]\<rparr>)
      else s)"

definition loop_empty :: "real \<Rightarrow> nat \<Rightarrow> 'a batch_processor \<Rightarrow> 'a batch_processor" where
  "loop_empty now i s =
     (if i < length (threads s) \<and> in_get (pc (threads s ! i)) \<and> request_queue s = []
      then
        let th = threads s ! i
        in if batch th \<noteq> [] then
             let (s2, exc) = process_batch (batch th) (result_queues th) True s
             in s2\<lparr>threads := (threads s2)[i := after_dispatch now th exc]\<rparr>
           else s\<lparr>threads := (threads s)[i := th\<lparr>pc := AtLoopTest, last_batch_time := now\<rparr>]\<rparr>
      else s)"

text \<open>
  The processor's life is a sequence of events: calls of \<open>start\<close>, \<open>stop\<close> and
  \<open>process\<close> by client threads, and steps of the dispatch threads, in any interleaving.
\<close>

datatype 'a event =
    Start real
  | Stop
  | Submit 'a
  | LoopTest nat real
  | GetItem nat real
  | GetEmpty nat real

fun step :: "'a event \<Rightarrow> 'a batch_processor \<Rightarrow> 'a batch_processor" where
  "step (Start now) s = start now s"
| "step Stop s = stop s"
| "step (Submit request) s = snd (process_enqueue request s)"
| "step (LoopTest i now) s = loop_test now i s"
| "step (GetItem i now) s = loop_got now i s"
| "step (GetEmpty i now) s = loop_empty now i s"

definition run :: "'a event list \<Rightarrow> 'a batch_processor \<Rightarrow> 'a batch_processor" where
  "run evs s = fold step evs s"

text \<open>The requests submitted by a sequence of events, in order.\<close>

fun submitted :: "'a event list \<Rightarrow> 'a list" where
  "submitted [] = []"
| "submitted (Submit request # evs) = request # submitted evs"
| "submitted (e # evs) = submitted evs"

text \<open>The metrics invariant: every counted batch is counted as full or as timed out.\<close>

definition metrics_ok :: "batch_metrics \<Rightarrow> bool" where
  "metrics_ok m \<longleftrightarrow> total_batches m = full_batches m + timeout_batches m"

text \<open>
  The size invariant: a batch under assembly is shorter than \<open>max_batch_size\<close>, and
  every dispatched batch is non-empty, within the bound, and exactly at the bound when it
  was dispatched as full.
\<close>

definition batch_bound_inv :: "'a batch_processor \<Rightarrow> bool" where
  "batch_bound_inv s \<longleftrightarrow>
     (\<forall>th \<in> set (threads s). int (length (batch th)) < max_batch_size s) \<and>
     (\<forall>(b, qs, trig) \<in> set (dispatched s).
        b \<noteq> [] \<and> int (length b) \<le> max_batch_size s \<and>
        (\<not> trig \<longrightarrow> int (length b) = max_batch_size s))"

text \<open>
  The invariant behind exactly-once delivery.  A result queue is pending while its request
  waits in the request queue or in the batch of a dispatch thread.  \<open>delivered\<close> says
  what the result queues of a dispatched batch hold.  \<open>subs\<close> is the list of requests
  submitted so far: the request of result queue \<open>q\<close> is \<open>subs ! q\<close>.
\<close>

definition pending :: "'a batch_processor \<Rightarrow> nat set" where
  "pending s = snd ` set (request_queue s) \<union> (\<Union>th \<in> set (threads s). set (result_queues th))"

definition delivered ::
  "('a list \<Rightarrow> 'a fn_result) option \<Rightarrow> (nat \<Rightarrow> 'a slot_value list) \<Rightarrow> 'a list \<Rightarrow> nat list \<Rightarrow> bool" where
  "delivered fn sl b qs \<longleftrightarrow>
     (case compute fn b of
        Returned results \<Rightarrow>
          (\<forall>i < length qs. sl (qs ! i) = (if i < length results then [Result (results ! i)] else []))
      | Raised e \<Rightarrow> (\<forall>i < length qs. sl (qs ! i) = [ErrorDict e])
      | RaisedBase e \<Rightarrow> (\<forall>i < length qs. sl (qs ! i) = []))"

definition queue_ok :: "'a list \<Rightarrow> 'a batch_processor \<Rightarrow> bool" where
  "queue_ok subs s \<longleftrightarrow>
     next_slot s = length subs \<and> distinct (map snd (request_queue s)) \<and>
     (\<forall>(r, q) \<in> set (request_queue s). q < length subs \<and> subs ! q = r)"

definition thread_ok :: "'a list \<Rightarrow> 'a batch_processor \<Rightarrow> 'a loop_state \<Rightarrow> bool" where
  "thread_ok subs s th \<longleftrightarrow>
     length (batch th) = length (result_queues th) \<and> distinct (result_queues th) \<and>
     set (result_queues th) \<inter> snd ` set (request_queue s) = {} \<and>
     (\<forall>i < length (result_queues th).
        result_queues th ! i < length subs \<and> subs ! (result_queues th ! i) = batch th ! i)"

definition threads_disjoint :: "'a loop_state list \<Rightarrow> bool" where
  "threads_disjoint ths \<longleftrightarrow>
     (\<forall>i < length ths. \<forall>j < length ths. i \<noteq> j \<longrightarrow>
        set (result_queues (ths ! i)) \<inter> set (result_queues (ths ! j)) = {})"

definition slots_ok :: "'a list \<Rightarrow> 'a batch_processor \<Rightarrow> bool" where
  "slots_ok subs s \<longleftrightarrow>
     (\<forall>q \<in> pending s. slots s q = []) \<and> (\<forall>q \<ge> length subs. slots s q = []) \<and>
     (\<forall>q. length (slots s q) \<le> 1)"

definition dispatch_ok :: "'a list \<Rightarrow> 'a batch_processor \<Rightarrow> 'a list \<times> nat list \<times> bool \<Rightarrow> bool" where
  "dispatch_ok subs s d \<longleftrightarrow>
     (case d of (b, qs, trig) \<Rightarrow>
        length qs = length b \<and> distinct qs \<and> set qs \<inter> pending s = {} \<and>
        (\<forall>i < length qs. qs ! i < length subs \<and> subs ! (qs ! i) = b ! i) \<and>
        delivered (process_fn s) (slots s) b qs)"

definition slots_inv :: "'a list \<Rightarrow> 'a batch_processor \<Rightarrow> bool" where
  "slots_inv subs s \<longleftrightarrow>
     queue_ok subs s \<and> (\<forall>th \<in> set (threads s). thread_ok subs s th) \<and>
     threads_disjoint (threads s) \<and> slots_ok subs s \<and>
     (\<forall>d \<in> set (dispatched s). dispatch_ok subs s d)"

text \<open>
  The dict holds exactly the virtual nodes of the members: a hash is a key, with value
  \<open>n\<close>, exactly when \<open>n\<close> is a member and the hash is one of its virtual nodes'.
\<close>

definition ring_exact :: "(string \<Rightarrow> int) \<Rightarrow> hash_ring \<Rightarrow> bool" where
  "ring_exact H r \<longleftrightarrow>
     (\<forall>h n. map_of (ring r) h = Some n \<longleftrightarrow>
        n \<in> set (nodes r) \<and> h \<in> set (node_hashes H (virtual_nodes r) n))"

text \<open>Events that are calls of \<open>start\<close>.\<close>

fun is_start :: "'a event \<Rightarrow> bool" where
  "is_start (Start now) = True"
| "is_start e = False"

section \<open>Properties of the consistent-hash ring\<close>

subsection \<open>Binary search\<close>

lemma bisect_loop_spec:
  assumes "sorted a" "lo \<le> hi" "hi \<le> length a"
    "\<forall>i<lo. a ! i \<le> x" "\<forall>i. hi \<le> i \<and> i < length a \<longrightarrow> x < a ! i"
  shows "lo \<le> bisect_loop a x lo hi \<and> bisect_loop a x lo hi \<le> hi \<and>
         (\<forall>i < bisect_loop a x lo hi. a ! i \<le> x) \<and>
         (\<forall>i. bisect_loop a x lo hi \<le> i \<and> i < length a \<longrightarrow> x < a ! i)"
  using assms
proof (induction a x lo hi rule: bisect_loop.induct)
  case (1 a x lo hi)
  show ?case
  proof (cases "lo < hi")
    case False
    then have eq: "bisect_loop a x lo hi = lo" by (subst bisect_loop.simps) simp
    from False "1.prems" show ?thesis unfolding eq by auto
  next
    case True
    define mid where "mid = (lo + hi) div 2"
    have mid: "lo \<le> mid" "mid < hi" using True by (simp_all add: mid_def)
    show ?thesis
    proof (cases "x < a ! mid")
      case lt: True
      have up: "\<forall>i. mid \<le> i \<and> i < length a \<longrightarrow> x < a ! i"
      proof (intro allI impI)
        fix i assume "mid \<le> i \<and> i < length a"
        then have "a ! mid \<le> a ! i" using \<open>sorted a\<close> by (simp add: sorted_nth_mono)
        with lt show "x < a ! i" by simp
      qed
      have IH: "lo \<le> bisect_loop a x lo mid \<and> bisect_loop a x lo mid \<le> mid \<and>
         (\<forall>i < bisect_loop a x lo mid. a ! i \<le> x) \<and>
         (\<forall>i. bisect_loop a x lo mid \<le> i \<and> i < length a \<longrightarrow> x < a ! i)"
        using "1.IH"(1)[OF True mid_def lt \<open>sorted a\<close> mid(1) _ "1.prems"(4) up] mid "1.prems"(3)
        by simp
      have eq: "bisect_loop a x lo hi = bisect_loop a x lo mid"
        using True lt by (simp add: bisect_loop.simps[of a x lo hi] mid_def Let_def)
      show ?thesis unfolding eq using IH mid by auto
    next
      case ge: False
      have low: "\<forall>i<mid + 1. a ! i \<le> x"
      proof (intro allI impI)
        fix i assume "i < mid + 1"
        then have "a ! i \<le> a ! mid" using \<open>sorted a\<close> mid "1.prems"(3) by (simp add: sorted_nth_mono)
        with ge show "a ! i \<le> x" by simp
      qed
      have IH: "mid + 1 \<le> bisect_loop a x (mid + 1) hi \<and> bisect_loop a x (mid + 1) hi \<le> hi \<and>
         (\<forall>i < bisect_loop a x (mid + 1) hi. a ! i \<le> x) \<and>
         (\<forall>i. bisect_loop a x (mid + 1) hi \<le> i \<and> i < length a \<longrightarrow> x < a ! i)"
        using "1.IH"(2)[OF True mid_def ge \<open>sorted a\<close> _ "1.prems"(3) low "1.prems"(5)] mid
        by simp
      have eq: "bisect_loop a x lo hi = bisect_loop a x (mid + 1) hi"
        using True ge by (simp add: bisect_loop.simps[of a x lo hi] mid_def Let_def)
      show ?thesis unfolding eq using IH mid by auto
    qed
  qed
qed

lemma bisect_right_spec:
  assumes "sorted a"
  shows "bisect_right a x \<le> length a \<and> (\<forall>i < bisect_right a x. a ! i \<le> x) \<and>
         (\<forall>i. bisect_right a x \<le> i \<and> i < length a \<longrightarrow> x < a ! i)"
  using bisect_loop_spec[of a 0 "length a" x] assms unfolding bisect_right_def by simp

subsection \<open>The dict under the loops of add_node and remove_node\<close>

lemma map_of_fold_update:
  "map_of (fold (\<lambda>i m. AList.update (f i) v m) js m) h =
     (if h \<in> f ` set js then Some v else map_of m h)"
  by (induction js arbitrary: m) (auto simp: update_conv')

lemma distinct_fold_update:
  "distinct (map fst m) \<Longrightarrow> distinct (map fst (fold (\<lambda>i m. AList.update (f i) v m) js m))"
  by (induction js arbitrary: m) (auto simp: distinct_update)

lemma keys_fold_update:
  "fst ` set (fold (\<lambda>i m. AList.update (f i) v m) js m) = f ` set js \<union> fst ` set m"
  by (induction js arbitrary: m) (auto simp: dom_update)

lemma map_of_fold_delete:
  "map_of (fold (\<lambda>i m. let k = f i in if k \<in> fst ` set m then AList.delete k m else m) js m) h =
     (if h \<in> f ` set js then None else map_of m h)"
proof (induction js arbitrary: m)
  case Nil
  show ?case by simp
next
  case (Cons j js)
  have "map_of (if f j \<in> fst ` set m then AList.delete (f j) m else m) = (map_of m)(f j := None)"
    by (auto simp: delete_conv' map_of_eq_None_iff[symmetric] fun_upd_idem simp del: map_of_eq_None_iff)
  then show ?case using Cons.IH by (auto simp: Let_def)
qed

lemma distinct_fold_delete:
  "distinct (map fst m) \<Longrightarrow>
   distinct (map fst (fold (\<lambda>i m. let k = f i in if k \<in> fst ` set m then AList.delete k m else m) js m))"
  by (induction js arbitrary: m) (auto simp: distinct_delete Let_def)

lemma set_fold_delete:
  "set (fold (\<lambda>i m. let k = f i in if k \<in> fst ` set m then AList.delete k m else m) js m) \<subseteq> set m"
proof (induction js arbitrary: m)
  case Nil
  show ?case by simp
next
  case (Cons j js)
  let ?m' = "if f j \<in> fst ` set m then AList.delete (f j) m else m"
  have "set ?m' \<subseteq> set m" by (auto simp: AList.delete_eq)
  with Cons.IH[of ?m'] show ?case by (auto simp: Let_def)
qed

lemma ring_inv_empty: "ring_inv H (empty_ring v)"
  by (simp add: ring_inv_def empty_ring_def)

lemma ring_inv_add_node:
  assumes inv: "ring_inv H r"
  shows "ring_inv H (add_node H n r)"
proof (cases "n \<in> set (nodes r)")
  case True
  then show ?thesis using inv by (simp add: add_node_def)
next
  case False
  let ?f = "\<lambda>i. H (virtual_key n i)"
  let ?ring' = "fold (\<lambda>i m. AList.update (?f i) n m) (py_range (virtual_nodes r)) (ring r)"
  have d: "distinct (map fst ?ring')" using inv by (simp add: ring_inv_def distinct_fold_update)
  have vals: "\<forall>(k, v) \<in> set ?ring'. v \<in> set (nodes r @ [n]) \<and>
                k \<in> set (node_hashes H (virtual_nodes r) v)"
  proof (clarify)
    fix k v assume kv: "(k, v) \<in> set ?ring'"
    with d have "map_of ?ring' k = Some v" by simp
    then have "(v = n \<and> k \<in> ?f ` set (py_range (virtual_nodes r))) \<or> map_of (ring r) k = Some v"
      by (simp add: map_of_fold_update split: if_splits)
    then show "v \<in> set (nodes r @ [n]) \<and>
                k \<in> set (node_hashes H (virtual_nodes r) v)"
      using inv by (auto simp: ring_inv_def node_hashes_def dest!: map_of_SomeD)
  qed
  show ?thesis
    using False inv vals d
    by (simp add: add_node_def Let_def ring_inv_def)
qed

lemma ring_inv_remove_node:
  assumes inv: "ring_inv H r"
  shows "ring_inv H (remove_node H n r)"
proof (cases "n \<in> set (nodes r)")
  case False
  then show ?thesis using inv by (simp add: remove_node_def)
next
  case True
  let ?f = "\<lambda>i. H (virtual_key n i)"
  let ?ring' = "fold (\<lambda>i m. let hash_value = ?f i
                               in if hash_value \<in> set (map fst m)
                                  then AList.delete hash_value m else m) (py_range (virtual_nodes r)) (ring r)"
  have d: "distinct (map fst ?ring')" using inv by (simp add: ring_inv_def distinct_fold_delete)
  have sub: "set ?ring' \<subseteq> set (ring r)" using set_fold_delete[of ?f] by simp
  have vals: "\<forall>(k, v) \<in> set ?ring'. v \<in> set (removeAll n (nodes r)) \<and>
                k \<in> set (node_hashes H (virtual_nodes r) v)"
  proof (clarify)
    fix k v assume kv: "(k, v) \<in> set ?ring'"
    with sub have old: "(k, v) \<in> set (ring r)" by auto
    from kv d have "map_of ?ring' k = Some v" by simp
    then have "k \<notin> ?f ` set (py_range (virtual_nodes r))"
      by (simp add: map_of_fold_delete split: if_splits)
    with old inv have "v \<noteq> n" by (auto simp: ring_inv_def node_hashes_def)
    with old inv show "v \<in> set (removeAll n (nodes r)) \<and>
                k \<in> set (node_hashes H (virtual_nodes r) v)"
      by (auto simp: ring_inv_def)
  qed
  show ?thesis
    using True inv vals d
    by (simp add: remove_node_def Let_def ring_inv_def distinct_removeAll)
qed

lemma ring_inv_apply_ops: "ring_inv H r \<Longrightarrow> ring_inv H (apply_ops H ops r)"
  unfolding apply_ops_def
proof (induction ops arbitrary: r)
  case Nil
  then show ?case by simp
next
  case (Cons op ops)
  have "ring_inv H (apply_op H op r)"
    using Cons.prems by (cases op) (simp_all add: ring_inv_add_node ring_inv_remove_node)
  then show ?case using Cons.IH by simp
qed

lemma ring_inv_new_ring: "ring_inv H (new_ring H ns v)"
proof -
  have "ring_inv H r \<Longrightarrow> ring_inv H (fold (add_node H) ns r)" for r
    by (induction ns arbitrary: r) (simp_all add: ring_inv_add_node)
  then show ?thesis by (simp add: new_ring_def ring_inv_empty)
qed

subsection \<open>What get_node returns\<close>

lemma successor_hash_sorted:
  assumes "sorted a" "a \<noteq> []"
  shows "a ! (let p = bisect_right a h in if p = length a then 0 else p) = successor_hash a h"
proof -
  define p where "p = bisect_right a h"
  have spec: "p \<le> length a" "\<forall>i<p. a ! i \<le> h" "\<forall>i. p \<le> i \<and> i < length a \<longrightarrow> h < a ! i"
    using bisect_right_spec[OF assms(1), of h] by (simp_all add: p_def)
  show ?thesis
  proof (cases "p = length a")
    case True
    have "filter (\<lambda>s. h < s) a = []"
    proof -
      have "\<not> h < y" if "y \<in> set a" for y
      proof -
        from that obtain j where "j < length a" "y = a ! j" by (auto simp: in_set_conv_nth)
        with spec(2) True show ?thesis by (simp add: not_less)
      qed
      then show ?thesis by (auto simp: filter_empty_conv)
    qed
    moreover have "a ! 0 = Min (set a)"
    proof (rule Min_eqI[symmetric])
      show "finite (set a)" by simp
      show "a ! 0 \<in> set a" using assms(2) by simp
      fix y assume "y \<in> set a"
      then obtain j where "j < length a" "y = a ! j" by (auto simp: in_set_conv_nth)
      then show "a ! 0 \<le> y" using assms(1) by (simp add: sorted_nth_mono)
    qed
    ultimately show ?thesis using True by (simp add: successor_hash_def p_def[symmetric])
  next
    case False
    then have pl: "p < length a" using spec(1) by simp
    then have hp: "h < a ! p" using spec(3) by simp
    have ne: "filter (\<lambda>s. h < s) a \<noteq> []"
      using pl hp by (auto simp: filter_empty_conv)
    have "Min (set (filter (\<lambda>s. h < s) a)) = a ! p"
    proof (rule Min_eqI)
      show "finite (set (filter (\<lambda>s. h < s) a))" by simp
      show "a ! p \<in> set (filter (\<lambda>s. h < s) a)" using pl hp by simp
      fix y assume "y \<in> set (filter (\<lambda>s. h < s) a)"
      then obtain j where j: "j < length a" "y = a ! j" "h < y" by (auto simp: in_set_conv_nth)
      then have "p \<le> j" using spec(2) by (metis not_le_imp_less not_less)
      then show "a ! p \<le> y" using assms(1) j by (simp add: sorted_nth_mono)
    qed
    then show ?thesis using False ne by (simp add: successor_hash_def p_def[symmetric])
  qed
qed

lemma successor_hash_set:
  assumes "set a = set b"
  shows "successor_hash a h = successor_hash b h"
proof -
  have "set (filter (\<lambda>s. h < s) a) = set (filter (\<lambda>s. h < s) b)" using assms by simp
  moreover have "filter (\<lambda>s. h < s) a = [] \<longleftrightarrow> filter (\<lambda>s. h < s) b = []"
    using assms by (auto simp: filter_empty_conv)
  ultimately show ?thesis using assms by (simp add: successor_hash_def)
qed

lemma successor_hash_mem: "ks \<noteq> [] \<Longrightarrow> successor_hash ks h \<in> set ks"
proof -
  assume ne: "ks \<noteq> []"
  show ?thesis
  proof (cases "filter (\<lambda>s. h < s) ks = []")
    case True
    then show ?thesis using ne Min_in[of "set ks"] by (simp add: successor_hash_def)
  next
    case False
    then have "Min (set (filter (\<lambda>s. h < s) ks)) \<in> set (filter (\<lambda>s. h < s) ks)"
      by (metis Min_in List.finite_set set_empty)
    then show ?thesis using False by (simp add: successor_hash_def)
  qed
qed

lemma get_node_spec:
  assumes inv: "ring_inv H r" and ne: "ring r \<noteq> []"
  shows "get_node H key r = Inr (map_of (ring r) (successor_hash (map fst (ring r)) (H key)))"
    and "map_of (ring r) (successor_hash (map fst (ring r)) (H key)) \<noteq> None"
proof -
  let ?ks = "map fst (ring r)"
  let ?a = "sorted_keys r"
  have a: "?a = sort ?ks" using inv by (simp add: ring_inv_def)
  have len: "length ?a = length (ring r)" by (simp add: a)
  have sa: "sorted ?a" "?a \<noteq> []" "set ?a = set ?ks"
  proof -
    show "sorted ?a" "set ?a = set ?ks" by (simp_all add: a)
    show "?a \<noteq> []" using len ne by (metis length_0_conv)
  qed
  let ?idx = "let p = bisect_right ?a (H key) in if p = length ?a then 0 else p"
  have idx: "?a ! ?idx = successor_hash ?ks (H key)"
    using successor_hash_sorted[OF sa(1,2)] successor_hash_set[OF sa(3)] by simp
  have lt: "?idx < length ?a"
    using bisect_right_spec[OF sa(1), of "H key"] sa(2) by (auto simp: Let_def)
  have mem: "successor_hash ?ks (H key) \<in> set ?ks"
    using ne successor_hash_mem[of ?ks "H key"] by simp
  then show nn: "map_of (ring r) (successor_hash ?ks (H key)) \<noteq> None"
    by (simp add: map_of_eq_None_iff)
  then obtain n where n: "map_of (ring r) (successor_hash ?ks (H key)) = Some n" by auto
  show "get_node H key r = Inr (map_of (ring r) (successor_hash ?ks (H key)))"
    using ne lt idx n unfolding get_node_def Let_def by (simp split: if_splits)
qed

subsection \<open>Lookup\<close>

lemma successor_hash_least:
  assumes "ks \<noteq> []"
  shows "successor_hash ks h \<in> set ks \<and>
         (if \<exists>k \<in> set ks. h < k
          then h < successor_hash ks h \<and> (\<forall>k \<in> set ks. h < k \<longrightarrow> successor_hash ks h \<le> k)
          else (\<forall>k \<in> set ks. successor_hash ks h \<le> k))"
proof (cases "filter (\<lambda>s. h < s) ks = []")
  case True
  then have no: "\<not> (\<exists>k \<in> set ks. h < k)" by (auto simp: filter_empty_conv)
  have "successor_hash ks h = Min (set ks)" using True by (simp add: successor_hash_def)
  then show ?thesis using no assms successor_hash_mem[OF assms, of h] by auto
next
  case False
  then have ex: "\<exists>k \<in> set ks. h < k" by (auto simp: filter_empty_conv)
  have eq: "successor_hash ks h = Min (set (filter (\<lambda>s. h < s) ks))"
    using False by (simp add: successor_hash_def)
  have "Min (set (filter (\<lambda>s. h < s) ks)) \<in> set (filter (\<lambda>s. h < s) ks)"
    using False by (metis Min_in List.finite_set set_empty)
  then have lt: "h < successor_hash ks h" by (simp add: eq)
  have "successor_hash ks h \<le> k" if "k \<in> set ks" "h < k" for k
    unfolding eq using that by (intro Min_le) simp_all
  then show ?thesis using ex lt successor_hash_mem[OF assms, of h] by auto
qed

lemma successor_hash_superset:
  assumes sub: "set ks \<subseteq> set ks'" and ne: "ks \<noteq> []"
    and mem: "successor_hash ks' h \<in> set ks"
  shows "successor_hash ks h = successor_hash ks' h"
proof -
  have ne': "ks' \<noteq> []" using sub ne by auto
  note L' = successor_hash_least[OF ne', of h]
  note L = successor_hash_least[OF ne, of h]
  let ?s = "successor_hash ks h" and ?s' = "successor_hash ks' h"
  show ?thesis
  proof (cases "\<exists>k \<in> set ks'. h < k")
    case True
    then have 1: "h < ?s'" "\<forall>k \<in> set ks'. h < k \<longrightarrow> ?s' \<le> k" using L' by simp_all
    then have ex: "\<exists>k \<in> set ks. h < k" using mem by auto
    then have 2: "h < ?s" "\<forall>k \<in> set ks. h < k \<longrightarrow> ?s \<le> k" "?s \<in> set ks" using L by simp_all
    have "?s' \<le> ?s" using 1(2) 2(1,3) sub by auto
    moreover have "?s \<le> ?s'" using 2(2) 1(1) mem by auto
    ultimately show ?thesis by simp
  next
    case False
    then have 1: "\<forall>k \<in> set ks'. ?s' \<le> k" using L' by simp
    have no: "\<not> (\<exists>k \<in> set ks. h < k)" using False sub by auto
    then have 2: "\<forall>k \<in> set ks. ?s \<le> k" "?s \<in> set ks" using L by simp_all
    have "?s' \<le> ?s" using 1 2(2) sub by auto
    moreover have "?s \<le> ?s'" using 2(1) mem by auto
    ultimately show ?thesis by simp
  qed
qed

lemma get_node_empty: "ring r = [] \<Longrightarrow> get_node H key r = Inr None"
  by (simp add: get_node_def)

lemma route_request_empty:
  "ring (hash_ring g) = [] \<Longrightarrow>
   route_request net H req g = (Inl NoWorkersAvailable, [], g\<lparr>request_count := request_count g + 1\<rparr>)"
  by (simp add: route_request_def Let_def get_node_empty)

lemma ring_inv_reachable: "ring_inv H (apply_ops H ops (empty_ring v))"
  by (simp add: ring_inv_apply_ops ring_inv_empty)

text \<open>
  Claim C5.  On every ring reached from the constructor by \<open>add_node\<close> and
  \<open>remove_node\<close>: when the ring has no entry, \<open>get_node\<close> returns no endpoint and
  \<open>route_request\<close> raises "No workers available" without forwarding; otherwise
  \<open>get_node\<close> returns the endpoint stored at a ring hash \<open>h\<close> that is the smallest
  ring hash strictly greater than the key's hash, or the smallest ring hash of all when no
  ring hash is greater.
\<close>

theorem lookup_successor_or_empty:
  assumes r: "r = apply_ops H ops (empty_ring v)"
  shows "(ring r = [] \<longrightarrow>
            get_node H key r = Inr None \<and>
            (hash_ring g = r \<longrightarrow>
               route_request net H req g =
                 (Inl NoWorkersAvailable, [], g\<lparr>request_count := request_count g + 1\<rparr>))) \<and>
         (ring r \<noteq> [] \<longrightarrow>
            (\<exists>h n. (h, n) \<in> set (ring r) \<and> get_node H key r = Inr (Some n) \<and>
               (if \<exists>k \<in> fst ` set (ring r). H key < k
                then H key < h \<and> (\<forall>k \<in> fst ` set (ring r). H key < k \<longrightarrow> h \<le> k)
                else (\<forall>k \<in> fst ` set (ring r). h \<le> k))))"
proof (intro conjI impI)
  assume "ring r = []"
  then show "get_node H key r = Inr None" by (rule get_node_empty)
next
  assume "ring r = []" "hash_ring g = r"
  then show "route_request net H req g =
                 (Inl NoWorkersAvailable, [], g\<lparr>request_count := request_count g + 1\<rparr>)"
    by (simp add: route_request_empty)
next
  assume ne: "ring r \<noteq> []"
  have inv: "ring_inv H r" unfolding r by (rule ring_inv_reachable)
  let ?ks = "map fst (ring r)"
  let ?h = "successor_hash ?ks (H key)"
  have ks: "?ks \<noteq> []" using ne by simp
  from get_node_spec[OF inv ne, of key]
  obtain n where n: "map_of (ring r) ?h = Some n" "get_node H key r = Inr (Some n)" by auto
  have "(?h, n) \<in> set (ring r)" using n(1) by (rule map_of_SomeD)
  moreover have "if \<exists>k \<in> fst ` set (ring r). H key < k
                then H key < ?h \<and> (\<forall>k \<in> fst ` set (ring r). H key < k \<longrightarrow> ?h \<le> k)
                else (\<forall>k \<in> fst ` set (ring r). ?h \<le> k)"
    using successor_hash_least[OF ks, of "H key"] by simp
  ultimately show "\<exists>h n. (h, n) \<in> set (ring r) \<and> get_node H key r = Inr (Some n) \<and>
               (if \<exists>k \<in> fst ` set (ring r). H key < k
                then H key < h \<and> (\<forall>k \<in> fst ` set (ring r). H key < k \<longrightarrow> h \<le> k)
                else (\<forall>k \<in> fst ` set (ring r). h \<le> k))"
    using n(2) by blast
qed

theorem lookup_successor_or_empty_witness:
  "ring (apply_ops byte_hash [Add ''A'', Add ''B''] (empty_ring 2)) \<noteq> [] \<and>
   map fst (ring (apply_ops byte_hash [Add ''A'', Add ''B''] (empty_ring 2)))
     = [4268848, 4268849, 4334384, 4334385] \<and>
   byte_hash ''A#1'' = 4268849 \<and>
   (4334384, ''B'') \<in> set (ring (apply_ops byte_hash [Add ''A'', Add ''B''] (empty_ring 2))) \<and>
   get_node byte_hash ''A#1'' (apply_ops byte_hash [Add ''A'', Add ''B''] (empty_ring 2))
     = Inr (Some ''B'') \<and>
   ring (apply_ops byte_hash [] (empty_ring 2)) = [] \<and>
   get_node byte_hash ''A#1'' (apply_ops byte_hash [] (empty_ring 2)) = Inr None"
proof -
  define r where "r = apply_ops byte_hash [Add ''A'', Add ''B''] (empty_ring 2)"
  define e where "e = apply_ops byte_hash [] (empty_ring 2)"
  have ne: "ring r \<noteq> []" unfolding r_def by code_simp
  have ks: "map fst (ring r) = [4268848, 4268849, 4334384, 4334385]" unfolding r_def by code_simp
  have hk: "byte_hash ''A#1'' = 4268849" by code_simp
  have mem: "(4334384, ''B'') \<in> set (ring r)" unfolding r_def by code_simp
  have ev: "get_node byte_hash ''A#1'' r = Inr (Some ''B'')" unfolding r_def by code_simp
  have em: "ring e = []" unfolding e_def by code_simp
  have "get_node byte_hash ''A#1'' e = Inr None"
    using lookup_successor_or_empty [OF e_def, where key = "''A#1''"] em by blast
  moreover have "\<exists>h n. (h, n) \<in> set (ring r) \<and> get_node byte_hash ''A#1'' r = Inr (Some n)"
    using lookup_successor_or_empty [OF r_def, where key = "''A#1''"] ne by blast
  ultimately show ?thesis using ne ks hk mem ev em unfolding r_def e_def by blast
qed

subsection \<open>Adding an endpoint\<close>

lemma add_node_member: "n \<in> set (nodes r) \<Longrightarrow> add_node H n r = r"
  by (simp add: add_node_def)

lemma add_node_ring:
  assumes "n \<notin> set (nodes r)"
  shows "map_of (ring (add_node H n r)) h =
           (if h \<in> set (node_hashes H (virtual_nodes r) n) then Some n else map_of (ring r) h)"
    and "fst ` set (ring (add_node H n r)) = set (node_hashes H (virtual_nodes r) n) \<union> fst ` set (ring r)"
    and "nodes (add_node H n r) = nodes r @ [n]"
    and "virtual_nodes (add_node H n r) = virtual_nodes r"
  using assms
  by (simp_all add: add_node_def Let_def map_of_fold_update keys_fold_update node_hashes_def)

text \<open>
  Claim C4.  On every ring reached from the constructor, adding an endpoint \<open>e\<close>
  moves keys only onto \<open>e\<close>: if the lookup of a key after \<open>add_node e\<close> differs
  from the lookup before, the new result is \<open>e\<close> and \<open>e\<close> was not a member; so no
  key moves between two endpoints that were members before.
\<close>

theorem add_node_moves_keys_only_to_new_node:
  assumes r: "r = apply_ops H ops (empty_ring v)"
  shows "(get_node H k (add_node H e r) \<noteq> get_node H k r \<longrightarrow>
            get_node H k (add_node H e r) = Inr (Some e) \<and> e \<notin> set (nodes r)) \<and>
         (get_node H k r = Inr (Some a) \<and> get_node H k (add_node H e r) = Inr (Some b) \<and> a \<noteq> b \<longrightarrow>
            \<not> (a \<in> set (nodes r) \<and> b \<in> set (nodes r)))"
proof -
  have inv: "ring_inv H r" unfolding r by (rule ring_inv_reachable)
  have main: "get_node H k (add_node H e r) = Inr (Some e) \<and> e \<notin> set (nodes r)"
    if diff: "get_node H k (add_node H e r) \<noteq> get_node H k r"
  proof -
    let ?r' = "add_node H e r"
    have new: "e \<notin> set (nodes r)" using diff add_node_member[of e r H] by auto
    have inv': "ring_inv H ?r'" using inv by (rule ring_inv_add_node)
    note ar = add_node_ring[OF new, of H]
    have ne': "ring ?r' \<noteq> []"
    proof
      assume e: "ring ?r' = []"
      then have "fst ` set (ring r) = {}" using ar(2) by simp
      then have "ring r = []" by simp
      with e diff show False by (simp add: get_node_empty)
    qed
    let ?ks = "map fst (ring r)" and ?ks' = "map fst (ring ?r')"
    let ?s' = "successor_hash ?ks' (H k)"
    have g': "get_node H k ?r' = Inr (map_of (ring ?r') ?s')"
      using get_node_spec(1)[OF inv' ne'] .
    have mem': "?s' \<in> set ?ks'" using ne' successor_hash_mem[of ?ks' "H k"] by simp
    show ?thesis
    proof (cases "?s' \<in> set (node_hashes H (virtual_nodes r) e)")
      case True
      then show ?thesis using g' ar(1)[of ?s'] new by simp
    next
      case False
      then have old: "?s' \<in> set ?ks" using mem' ar(2) by auto
      then have ne: "ring r \<noteq> []" by auto
      have sub: "set ?ks \<subseteq> set ?ks'" using ar(2) by auto
      have "successor_hash ?ks (H k) = ?s'"
        using sub _ old by (rule successor_hash_superset) (use ne in simp)
      then have "get_node H k r = Inr (map_of (ring r) ?s')"
        using get_node_spec(1)[OF inv ne, of k] by simp
      then have "get_node H k r = get_node H k ?r'" using g' ar(1)[of ?s'] False by simp
      with diff show ?thesis by simp
    qed
  qed
  then show ?thesis by auto
qed

theorem add_node_moves_keys_only_to_new_node_witness:
  "get_node byte_hash ''A#1''
     (add_node byte_hash ''B'' (apply_ops byte_hash [Add ''A'', Add ''C''] (empty_ring 2)))
     \<noteq> get_node byte_hash ''A#1'' (apply_ops byte_hash [Add ''A'', Add ''C''] (empty_ring 2)) \<and>
   get_node byte_hash ''A#1'' (apply_ops byte_hash [Add ''A'', Add ''C''] (empty_ring 2))
     = Inr (Some ''C'') \<and>
   get_node byte_hash ''A#1''
     (add_node byte_hash ''B'' (apply_ops byte_hash [Add ''A'', Add ''C''] (empty_ring 2)))
     = Inr (Some ''B'') \<and>
   ''B'' \<notin> set (nodes (apply_ops byte_hash [Add ''A'', Add ''C''] (empty_ring 2)))"
proof -
  define r where "r = apply_ops byte_hash [Add ''A'', Add ''C''] (empty_ring 2)"
  have before: "get_node byte_hash ''A#1'' r = Inr (Some ''C'')" unfolding r_def by code_simp
  have diff: "get_node byte_hash ''A#1'' (add_node byte_hash ''B'' r) \<noteq> get_node byte_hash ''A#1'' r"
    unfolding r_def by code_simp
  from add_node_moves_keys_only_to_new_node [OF r_def, of "''A#1''" "''B''"] diff
  have "get_node byte_hash ''A#1'' (add_node byte_hash ''B'' r) = Inr (Some ''B'') \<and>
        ''B'' \<notin> set (nodes r)"
    by blast
  then show ?thesis using before diff unfolding r_def by blast
qed

subsection \<open>The dict when hashes do not collide\<close>

lemma remove_node_absent: "n \<notin> set (nodes r) \<Longrightarrow> remove_node H n r = r"
  by (simp add: remove_node_def)

lemma remove_node_ring:
  assumes "n \<in> set (nodes r)"
  shows "map_of (ring (remove_node H n r)) h =
           (if h \<in> set (node_hashes H (virtual_nodes r) n) then None else map_of (ring r) h)"
    and "nodes (remove_node H n r) = removeAll n (nodes r)"
    and "virtual_nodes (remove_node H n r) = virtual_nodes r"
  using assms
  by (simp_all add: remove_node_def Let_def map_of_fold_delete[unfolded Let_def] node_hashes_def)

lemma add_node_virtual_nodes [simp]: "virtual_nodes (add_node H n r) = virtual_nodes r"
  by (simp add: add_node_def Let_def)

lemma remove_node_virtual_nodes [simp]: "virtual_nodes (remove_node H n r) = virtual_nodes r"
  by (simp add: remove_node_def Let_def)

lemma add_node_nodes: "set (nodes (add_node H n r)) = insert n (set (nodes r))"
  by (auto simp: add_node_def Let_def)

lemma remove_node_nodes: "set (nodes (remove_node H n r)) = set (nodes r) - {n}"
  by (auto simp: remove_node_def Let_def)

lemma ring_exact_add_node:
  assumes cf: "collision_free H (virtual_nodes r) N" and sub: "set (nodes r) \<subseteq> N" and n: "n \<in> N"
    and ex: "ring_exact H r"
  shows "ring_exact H (add_node H n r)"
proof (cases "n \<in> set (nodes r)")
  case True
  then show ?thesis using ex by (simp add: add_node_member)
next
  case False
  note ar = add_node_ring[OF False, of H]
  have disj: "h \<notin> set (node_hashes H (virtual_nodes r) n)"
    if "m \<in> set (nodes r)" "h \<in> set (node_hashes H (virtual_nodes r) m)" for m h
  proof -
    have "m \<noteq> n" "m \<in> N" using that(1) False sub by auto
    then have "set (node_hashes H (virtual_nodes r) m) \<inter> set (node_hashes H (virtual_nodes r) n) = {}"
      using cf n by (simp add: collision_free_def)
    then show ?thesis using that(2) by auto
  qed
  show ?thesis
    unfolding ring_exact_def
  proof (intro allI)
    fix h m
    show "map_of (ring (add_node H n r)) h = Some m \<longleftrightarrow>
          m \<in> set (nodes (add_node H n r)) \<and>
          h \<in> set (node_hashes H (virtual_nodes (add_node H n r)) m)"
      using ex disj[of m h] False unfolding ring_exact_def
      by (auto simp: ar(1,3))
  qed
qed

lemma ring_exact_remove_node:
  assumes cf: "collision_free H (virtual_nodes r) N" and sub: "set (nodes r) \<subseteq> N"
    and ex: "ring_exact H r"
  shows "ring_exact H (remove_node H n r)"
proof (cases "n \<in> set (nodes r)")
  case False
  then show ?thesis using ex by (simp add: remove_node_absent)
next
  case True
  note rr = remove_node_ring[OF True, of H]
  have disj: "h \<notin> set (node_hashes H (virtual_nodes r) n)"
    if "m \<in> set (nodes r)" "m \<noteq> n" "h \<in> set (node_hashes H (virtual_nodes r) m)" for m h
  proof -
    have "m \<in> N" "n \<in> N" using that(1) True sub by auto
    then have "set (node_hashes H (virtual_nodes r) m) \<inter> set (node_hashes H (virtual_nodes r) n) = {}"
      using cf that(2) by (simp add: collision_free_def)
    then show ?thesis using that(3) by auto
  qed
  show ?thesis
    unfolding ring_exact_def
  proof (intro allI)
    fix h m
    show "map_of (ring (remove_node H n r)) h = Some m \<longleftrightarrow>
          m \<in> set (nodes (remove_node H n r)) \<and>
          h \<in> set (node_hashes H (virtual_nodes (remove_node H n r)) m)"
      using ex disj[of m h] unfolding ring_exact_def
      by (auto simp: rr(1,2))
  qed
qed

lemma apply_ops_exact:
  assumes cf: "collision_free H (virtual_nodes r) N" and ops: "op_node ` set ops \<subseteq> N"
    and sub: "set (nodes r) \<subseteq> N" and ex: "ring_exact H r"
  shows "ring_exact H (apply_ops H ops r) \<and> set (nodes (apply_ops H ops r)) \<subseteq> N \<and>
         virtual_nodes (apply_ops H ops r) = virtual_nodes r"
  using assms unfolding apply_ops_def
proof (induction ops arbitrary: r)
  case Nil
  then show ?case by simp
next
  case (Cons op ops)
  have "ring_exact H (apply_op H op r) \<and> set (nodes (apply_op H op r)) \<subseteq> N \<and>
        virtual_nodes (apply_op H op r) = virtual_nodes r"
    using Cons.prems
    by (cases op) (auto simp: ring_exact_add_node ring_exact_remove_node add_node_nodes
                        remove_node_nodes)
  then show ?case using Cons.IH[of "apply_op H op r"] Cons.prems by simp
qed

lemma ring_exact_empty: "ring_exact H (empty_ring v)"
  by (simp add: ring_exact_def empty_ring_def)

lemma new_ring_apply_ops: "new_ring H ns v = apply_ops H (map Add ns) (empty_ring v)"
proof -
  have "apply_op H \<circ> Add = add_node H" by (simp add: fun_eq_iff)
  then show ?thesis by (simp add: new_ring_def apply_ops_def fold_map)
qed

lemma new_ring_nodes: "set (nodes (new_ring H ns v)) = set ns"
proof -
  have "set (nodes (fold (add_node H) ns r)) = set ns \<union> set (nodes r)" for r
    by (induction ns arbitrary: r) (auto simp: add_node_nodes)
  then show ?thesis by (simp add: new_ring_def empty_ring_def)
qed

lemma new_ring_virtual_nodes [simp]: "virtual_nodes (new_ring H ns v) = v"
proof -
  have "virtual_nodes (fold (add_node H) ns r) = virtual_nodes r" for r
    by (induction ns arbitrary: r) simp_all
  then show ?thesis by (simp add: new_ring_def empty_ring_def)
qed

lemma new_ring_exact:
  assumes "collision_free H v (set ns)"
  shows "ring_exact H (new_ring H ns v)"
proof -
  have "collision_free H (virtual_nodes (empty_ring v)) (set ns)"
    using assms by (simp add: empty_ring_def)
  then show ?thesis
    unfolding new_ring_apply_ops
    using apply_ops_exact[of H "empty_ring v" "set ns" "map Add ns"] ring_exact_empty[of H v]
    by (simp add: empty_ring_def image_image)
qed

lemma option_eqI: "(\<And>n. (a = Some n) = (b = Some n)) \<Longrightarrow> a = b"
  by (cases a; cases b; auto)

lemma get_node_cong:
  assumes i1: "ring_inv H r1" and i2: "ring_inv H r2"
    and m: "map_of (ring r1) = map_of (ring r2)"
  shows "get_node H k r1 = get_node H k r2"
proof -
  have dom: "fst ` set (ring r1) = fst ` set (ring r2)"
    using m by (metis dom_map_of_conv_image_fst)
  show ?thesis
  proof (cases "ring r1 = []")
    case True
    then have "ring r2 = []" using dom by auto
    with True show ?thesis by (simp add: get_node_empty)
  next
    case False
    then have ne2: "ring r2 \<noteq> []" using dom by auto
    have "successor_hash (map fst (ring r1)) (H k) = successor_hash (map fst (ring r2)) (H k)"
      by (rule successor_hash_set) (use dom in simp)
    then show ?thesis
      using get_node_spec(1)[OF i1 False, of k] get_node_spec(1)[OF i2 ne2, of k] m by simp
  qed
qed

lemma ring_exact_D:
  "ring_exact H r \<Longrightarrow>
   (map_of (ring r) h = Some n) = (n \<in> set (nodes r) \<and> h \<in> set (node_hashes H (virtual_nodes r) n))"
  unfolding ring_exact_def by blast

lemma ring_exact_same_map:
  assumes e1: "ring_exact H r1" and e2: "ring_exact H r2"
    and n: "set (nodes r1) = set (nodes r2)" and v: "virtual_nodes r1 = virtual_nodes r2"
  shows "map_of (ring r1) = map_of (ring r2)"
proof (rule ext)
  fix h
  have "(map_of (ring r1) h = Some m) = (map_of (ring r2) h = Some m)" for m
    unfolding ring_exact_D[OF e1] ring_exact_D[OF e2] n v ..
  then show "map_of (ring r1) h = map_of (ring r2) h" by (rule option_eqI)
qed

subsection \<open>Insertion order\<close>

text \<open>
  A hash with a bounded range, as md5 has, maps the first virtual keys of two different
  endpoint names to one value; on the ring of these two endpoints with one virtual node
  each, the endpoint added last owns the only ring entry.
\<close>

lemma bounded_hash_collides:
  fixes H :: "string \<Rightarrow> int"
  assumes "\<forall>s. 0 \<le> H s \<and> H s < N"
  shows "\<exists>a b. a \<noteq> b \<and> H (virtual_key a 0) = H (virtual_key b 0)"
proof (rule ccontr)
  assume "\<not> ?thesis"
  then have "inj (\<lambda>a. H (virtual_key a 0))" by (auto simp: inj_on_def)
  moreover have "range (\<lambda>a. H (virtual_key a 0)) \<subseteq> {0..<N}" using assms by auto
  then have "finite (range (\<lambda>a. H (virtual_key a 0)))"
    using finite_atLeastLessThan_int[of 0 N] by (rule finite_subset)
  ultimately have "finite (UNIV :: string set)" by (rule finite_imageD[rotated])
  then show False using infinite_UNIV_listI by blast
qed

lemma colliding_pair_lookup:
  assumes ne: "a \<noteq> b" and c: "H (virtual_key a 0) = H (virtual_key b 0)"
  shows "get_node H k (new_ring H [a, b] 1) = Inr (Some b)"
proof -
  let ?r = "new_ring H [a, b] 1"
  have rg: "ring ?r = [(H (virtual_key b 0), b)]"
    using ne c by (simp add: new_ring_def empty_ring_def add_node_def py_range_def Let_def)
  have inv: "ring_inv H ?r" by (rule ring_inv_new_ring)
  have nonempty: "ring ?r \<noteq> []" by (simp add: rg)
  have "successor_hash (map fst (ring ?r)) (H k) \<in> set (map fst (ring ?r))"
    by (rule successor_hash_mem) (simp add: rg)
  then have "successor_hash (map fst (ring ?r)) (H k) = H (virtual_key b 0)" by (simp add: rg)
  then show ?thesis using get_node_spec(1)[OF inv nonempty, of k] by (simp add: rg)
qed

lemma bounded_hash_order_dependent:
  assumes "\<forall>s. 0 \<le> H s \<and> H s < N"
  shows "\<exists>a b. a \<noteq> b \<and>
           (\<forall>k. get_node H k (new_ring H [a, b] 1) = Inr (Some b) \<and>
                get_node H k (new_ring H [b, a] 1) = Inr (Some a))"
proof -
  from bounded_hash_collides[OF assms]
  obtain a b where ab: "a \<noteq> b" "H (virtual_key a 0) = H (virtual_key b 0)" by blast
  have "get_node H k (new_ring H [a, b] 1) = Inr (Some b)" for k
    using ab by (rule colliding_pair_lookup)
  moreover have "get_node H k (new_ring H [b, a] 1) = Inr (Some a)" for k
    using ab(1)[symmetric] ab(2)[symmetric] by (rule colliding_pair_lookup)
  ultimately show ?thesis using ab(1) by blast
qed

text \<open>
  Claim C2, as stated, fails: under the hash \<open>length_hash\<close> the virtual keys
  \<open>A#0\<close> and \<open>B#0\<close> collide, the later \<open>add_node\<close> overwrites the dict
  entry, and the two insertion orders of the set \<open>{A, B}\<close> give different lookups.
\<close>

theorem lookup_depends_on_insertion_order_counterexample:
  "set [''A'', ''B''] = set [''B'', ''A''] \<and>
   get_node length_hash ''k'' (new_ring length_hash [''A'', ''B''] 1) = Inr (Some ''B'') \<and>
   get_node length_hash ''k'' (new_ring length_hash [''B'', ''A''] 1) = Inr (Some ''A'')"
  by code_simp

text \<open>
  Claim C2, amended.  If no two virtual nodes of different endpoints of the set share a
  hash value, then two rings built by adding the members of the set in any two orders
  (with the same number of virtual nodes) return the same endpoint for every key.
\<close>

theorem lookup_independent_of_insertion_order:
  assumes cf: "collision_free H v (set xs)" and same: "set xs = set ys"
  shows "get_node H k (new_ring H xs v) = get_node H k (new_ring H ys v)"
proof -
  have e1: "ring_exact H (new_ring H xs v)" using cf by (rule new_ring_exact)
  have "collision_free H v (set ys)" using cf unfolding same .
  then have e2: "ring_exact H (new_ring H ys v)" by (rule new_ring_exact)
  have "map_of (ring (new_ring H xs v)) = map_of (ring (new_ring H ys v))"
    using e1 e2 by (rule ring_exact_same_map) (simp_all only: new_ring_nodes new_ring_virtual_nodes same)
  then show ?thesis
    by (rule get_node_cong[OF ring_inv_new_ring ring_inv_new_ring])
qed

theorem lookup_independent_of_insertion_order_witness:
  "collision_free byte_hash 2 (set [''A'', ''B'']) \<and>
   set [''A'', ''B''] = set [''B'', ''A''] \<and>
   get_node byte_hash ''A#1'' (new_ring byte_hash [''A'', ''B''] 2) = Inr (Some ''B'') \<and>
   get_node byte_hash ''A#1'' (new_ring byte_hash [''B'', ''A''] 2) = Inr (Some ''B'')"
proof -
  have cf: "collision_free byte_hash 2 (set [''A'', ''B''])"
    unfolding collision_free_def by code_simp
  have same: "set [''A'', ''B''] = set [''B'', ''A'']" by auto
  have ev: "get_node byte_hash ''A#1'' (new_ring byte_hash [''A'', ''B''] 2) = Inr (Some ''B'')"
    by code_simp
  from lookup_independent_of_insertion_order [OF cf same, of "''A#1''"] ev
  have "get_node byte_hash ''A#1'' (new_ring byte_hash [''B'', ''A''] 2) = Inr (Some ''B'')"
    by simp
  then show ?thesis using cf same ev by blast
qed

subsection \<open>Invariants of the ring\<close>

lemma add_node_idem: "add_node H n (add_node H n r) = add_node H n r"
  by (simp add: add_node_def Let_def)

lemma remove_node_idem: "remove_node H n (remove_node H n r) = remove_node H n r"
  by (simp add: remove_node_def Let_def)

lemma reachable_exact:
  assumes "collision_free H v (op_node ` set ops)"
  shows "ring_exact H (apply_ops H ops (empty_ring v))"
    and "set (nodes (apply_ops H ops (empty_ring v))) \<subseteq> op_node ` set ops"
    and "virtual_nodes (apply_ops H ops (empty_ring v)) = v"
proof -
  have "collision_free H (virtual_nodes (empty_ring v)) (op_node ` set ops)"
    using assms by (simp add: empty_ring_def)
  from apply_ops_exact[OF this subset_refl _ ring_exact_empty]
  show "ring_exact H (apply_ops H ops (empty_ring v))"
    and "set (nodes (apply_ops H ops (empty_ring v))) \<subseteq> op_node ` set ops"
    and "virtual_nodes (apply_ops H ops (empty_ring v)) = v"
    by (simp_all add: empty_ring_def)
qed

lemma length_node_hashes: "length (node_hashes H v n) = nat v"
  by (simp add: node_hashes_def py_range_def)

lemma exact_keys:
  assumes "ring_exact H r"
  shows "fst ` set (ring r) = (\<Union>n \<in> set (nodes r). set (node_hashes H (virtual_nodes r) n))"
proof -
  have "fst ` set (ring r) = dom (map_of (ring r))" by (simp add: dom_map_of_conv_image_fst)
  also have "\<dots> = (\<Union>n \<in> set (nodes r). set (node_hashes H (virtual_nodes r) n))"
    using ring_exact_D[OF assms] by (auto simp: dom_def)
  finally show ?thesis .
qed

lemma exact_length:
  assumes inv: "ring_inv H r" and ex: "ring_exact H r"
    and hd: "hashes_distinct H (virtual_nodes r) N" and sub: "set (nodes r) \<subseteq> N"
  shows "length (sorted_keys r) = nat (virtual_nodes r) * length (nodes r)"
proof -
  let ?A = "\<lambda>n. set (node_hashes H (virtual_nodes r) n)"
  have d: "distinct (map fst (ring r))" and sk: "sorted_keys r = sort (map fst (ring r))"
    and dn: "distinct (nodes r)"
    using inv by (simp_all add: ring_inv_def)
  have "length (sorted_keys r) = length (map fst (ring r))" by (simp add: sk)
  also have "\<dots> = card (set (map fst (ring r)))" using distinct_card[OF d] by simp
  also have "set (map fst (ring r)) = (\<Union>n \<in> set (nodes r). ?A n)"
    using exact_keys[OF ex] by simp
  also have "card (\<Union>n \<in> set (nodes r). ?A n) = (\<Sum>n \<in> set (nodes r). card (?A n))"
  proof (rule card_UN_disjoint)
    show "finite (set (nodes r))" by simp
    show "\<forall>i \<in> set (nodes r). finite (?A i)" by simp
    show "\<forall>i \<in> set (nodes r). \<forall>j \<in> set (nodes r). i \<noteq> j \<longrightarrow> ?A i \<inter> ?A j = {}"
      using hd sub by (auto simp: hashes_distinct_def collision_free_def)
  qed
  also have "\<dots> = (\<Sum>n \<in> set (nodes r). nat (virtual_nodes r))"
  proof (rule sum.cong[OF refl])
    fix n assume "n \<in> set (nodes r)"
    then have "distinct (node_hashes H (virtual_nodes r) n)"
      using hd sub by (auto simp: hashes_distinct_def)
    then show "card (?A n) = nat (virtual_nodes r)"
      by (simp add: distinct_card length_node_hashes)
  qed
  also have "\<dots> = nat (virtual_nodes r) * length (nodes r)"
    using dn by (simp add: distinct_card)
  finally show ?thesis .
qed

lemma exact_nonempty:
  assumes inv: "ring_inv H r" and ex: "ring_exact H r" and v: "1 \<le> virtual_nodes r"
  shows "ring r \<noteq> [] \<longleftrightarrow> nodes r \<noteq> []"
proof
  assume "ring r \<noteq> []"
  then obtain k n where "(k, n) \<in> set (ring r)" by (cases "ring r") auto
  then have "n \<in> set (nodes r)" using inv by (auto simp: ring_inv_def)
  then show "nodes r \<noteq> []" by auto
next
  assume "nodes r \<noteq> []"
  then obtain n where n: "n \<in> set (nodes r)" by (cases "nodes r") auto
  have "0 \<in> set (py_range (virtual_nodes r))" using v by (simp add: py_range_def)
  then have "H (virtual_key n 0) \<in> set (node_hashes H (virtual_nodes r) n)"
    by (simp add: node_hashes_def)
  then have "map_of (ring r) (H (virtual_key n 0)) = Some n"
    using ring_exact_D[OF ex] n by simp
  then show "ring r \<noteq> []" by auto
qed

lemma get_node_some_iff:
  assumes inv: "ring_inv H r"
  shows "(\<exists>n. get_node H key r = Inr (Some n)) \<longleftrightarrow> ring r \<noteq> []"
proof (cases "ring r = []")
  case True
  then show ?thesis by (simp add: get_node_empty)
next
  case False
  then show ?thesis using get_node_spec[OF inv False, of key] by auto
qed

text \<open>
  Claim C9, as stated, fails.  With no virtual nodes (\<open>V = 0\<close>) a ring has a member and
  \<open>get_node\<close> returns no endpoint.  Under a colliding hash two members share one ring
  entry, so \<open>sorted_keys\<close> has fewer than \<open>V\<close> times the number of members; and
  removing the member added first deletes the shared entry, which leaves a member and a
  lookup that returns no endpoint.
\<close>

theorem ring_invariants_counterexample:
  "nodes (apply_ops byte_hash [Add ''A''] (empty_ring 0)) = [''A''] \<and>
   get_node byte_hash ''k'' (apply_ops byte_hash [Add ''A''] (empty_ring 0)) = Inr None \<and>
   nodes (apply_ops length_hash [Add ''A'', Add ''B''] (empty_ring 1)) = [''A'', ''B''] \<and>
   sorted_keys (apply_ops length_hash [Add ''A'', Add ''B''] (empty_ring 1)) = [3] \<and>
   nodes (apply_ops length_hash [Add ''A'', Add ''B'', Remove ''A''] (empty_ring 1)) = [''B''] \<and>
   get_node length_hash ''k'' (apply_ops length_hash [Add ''A'', Add ''B'', Remove ''A''] (empty_ring 1))
     = Inr None"
  by code_simp

text \<open>
  Claim C9, amended.  \<open>add_node\<close> and \<open>remove_node\<close> are idempotent.  After every
  sequence of them, \<open>sorted_keys\<close> is strictly increasing and holds exactly the keys of
  the dict, the member set has no duplicates, and \<open>get_node\<close> returns an endpoint if and
  only if the dict is non-empty.  If moreover the virtual nodes of the endpoints named in
  the operations have pairwise different hash values, then \<open>sorted_keys\<close> has \<open>V\<close>
  entries per member (none for \<open>V \<le> 0\<close>), and for \<open>V \<ge> 1\<close> \<open>get_node\<close>
  returns an endpoint if and only if the member set is non-empty.
\<close>

theorem ring_invariants_after_operations:
  assumes r: "r = apply_ops H ops (empty_ring v)"
  shows "add_node H n (add_node H n r) = add_node H n r \<and>
         remove_node H n (remove_node H n r) = remove_node H n r \<and>
         sorted_wrt (<) (sorted_keys r) \<and> set (sorted_keys r) = fst ` set (ring r) \<and>
         distinct (nodes r) \<and>
         ((\<exists>m. get_node H key r = Inr (Some m)) \<longleftrightarrow> ring r \<noteq> []) \<and>
         (hashes_distinct H v (op_node ` set ops) \<longrightarrow>
            length (sorted_keys r) = nat v * length (nodes r) \<and>
            (1 \<le> v \<longrightarrow> ((\<exists>m. get_node H key r = Inr (Some m)) \<longleftrightarrow> nodes r \<noteq> [])))"
proof -
  have inv: "ring_inv H r" unfolding r by (rule ring_inv_reachable)
  have d: "distinct (map fst (ring r))" and sk: "sorted_keys r = sort (map fst (ring r))"
    and dn: "distinct (nodes r)"
    using inv by (simp_all add: ring_inv_def)
  have s1: "sorted_wrt (<) (sorted_keys r)"
    using d by (simp add: sk strict_sorted_iff)
  have s2: "set (sorted_keys r) = fst ` set (ring r)" by (simp add: sk)
  note g = get_node_some_iff[OF inv, of key]
  have cond: "length (sorted_keys r) = nat v * length (nodes r) \<and>
            (1 \<le> v \<longrightarrow> ((\<exists>m. get_node H key r = Inr (Some m)) \<longleftrightarrow> nodes r \<noteq> []))"
    if hd: "hashes_distinct H v (op_node ` set ops)"
  proof -
    have cf: "collision_free H v (op_node ` set ops)" using hd by (simp add: hashes_distinct_def)
    note e = reachable_exact[OF cf, folded r]
    have "length (sorted_keys r) = nat v * length (nodes r)"
      using exact_length[OF inv e(1) _ e(2)] hd by (simp add: e(3))
    moreover have "(\<exists>m. get_node H key r = Inr (Some m)) \<longleftrightarrow> nodes r \<noteq> []" if "1 \<le> v"
      using exact_nonempty[OF inv e(1)] that g by (simp add: e(3))
    ultimately show ?thesis by blast
  qed
  show ?thesis using s1 s2 dn g cond add_node_idem remove_node_idem by blast
qed

theorem ring_invariants_after_operations_witness:
  "hashes_distinct byte_hash 2 (op_node ` set [Add ''A'', Add ''B'', Remove ''A'']) \<and>
   (1::int) \<le> 2 \<and>
   sorted_keys (apply_ops byte_hash [Add ''A'', Add ''B'', Remove ''A''] (empty_ring 2))
     = [4334384, 4334385] \<and>
   nodes (apply_ops byte_hash [Add ''A'', Add ''B'', Remove ''A''] (empty_ring 2)) = [''B''] \<and>
   length (sorted_keys (apply_ops byte_hash [Add ''A'', Add ''B'', Remove ''A''] (empty_ring 2)))
     = nat 2 * length (nodes (apply_ops byte_hash [Add ''A'', Add ''B'', Remove ''A''] (empty_ring 2))) \<and>
   get_node byte_hash ''k'' (apply_ops byte_hash [Add ''A'', Add ''B'', Remove ''A''] (empty_ring 2))
     = Inr (Some ''B'')"
proof -
  define r where "r = apply_ops byte_hash [Add ''A'', Add ''B'', Remove ''A''] (empty_ring 2)"
  have hd: "hashes_distinct byte_hash 2 (op_node ` set [Add ''A'', Add ''B'', Remove ''A''])"
    unfolding hashes_distinct_def collision_free_def by code_simp
  have v: "(1::int) \<le> 2" by simp
  have sk: "sorted_keys r = [4334384, 4334385]" unfolding r_def by code_simp
  have ns: "nodes r = [''B'']" unfolding r_def by code_simp
  have ev: "get_node byte_hash ''k'' r = Inr (Some ''B'')" unfolding r_def by code_simp
  from ring_invariants_after_operations [OF r_def, where key = "''k''" and n = "''A''"] hd
  have "length (sorted_keys r) = nat 2 * length (nodes r)" by blast
  then show ?thesis using hd v sk ns ev unfolding r_def by blast
qed

section \<open>Properties of the router\<close>

subsection \<open>Failover\<close>

lemma failover_tried:
  "failover net req t ns = (res, tried) \<Longrightarrow>
     set tried \<subseteq> set ns - {t} \<and> (distinct ns \<longrightarrow> distinct tried)"
proof (induction ns arbitrary: res tried)
  case Nil
  then show ?case by simp
next
  case (Cons n ns)
  obtain res' tried' where rec: "failover net req t ns = (res', tried')"
    by (cases "failover net req t ns") auto
  note IH = Cons.IH[OF rec]
  show ?case
    using Cons.prems IH rec
    by (auto split: if_splits urlopen_result.splits)
qed

lemma failover_success:
  "failover net req t ns = (Some a, tried) \<Longrightarrow>
     tried \<noteq> [] \<and> net (last tried @ ''/infer'') req = Response a \<and>
     (\<forall>n \<in> set (butlast tried). \<forall>b. net (n @ ''/infer'') req \<noteq> Response b)"
proof (induction ns arbitrary: tried)
  case Nil
  then show ?case by simp
next
  case (Cons n ns)
  show ?case
  proof (cases "n \<noteq> t")
    case False
    then show ?thesis using Cons by simp
  next
    case True
    show ?thesis
    proof (cases "net (n @ ''/infer'') req")
      case (Response b)
      then show ?thesis using Cons.prems True by auto
    next
      case (URLError m)
      obtain tried' where rec: "failover net req t ns = (Some a, tried')" and t: "tried = n # tried'"
        using Cons.prems True URLError by (auto split: prod.splits)
      from Cons.IH[OF rec] show ?thesis using t URLError by auto
    next
      case (SocketError m)
      obtain tried' where rec: "failover net req t ns = (Some a, tried')" and t: "tried = n # tried'"
        using Cons.prems True SocketError by (auto split: prod.splits)
      from Cons.IH[OF rec] show ?thesis using t SocketError by auto
    next
      case (OtherException m)
      obtain tried' where rec: "failover net req t ns = (Some a, tried')" and t: "tried = n # tried'"
        using Cons.prems True OtherException by (auto split: prod.splits)
      from Cons.IH[OF rec] show ?thesis using t OtherException by auto
    qed
  qed
qed

lemma failover_all_failed:
  "failover net req t ns = (None, tried) \<Longrightarrow>
     tried = filter (\<lambda>n. n \<noteq> t) ns \<and>
     (\<forall>n \<in> set tried. \<forall>b. net (n @ ''/infer'') req \<noteq> Response b)"
proof (induction ns arbitrary: tried)
  case Nil
  then show ?case by simp
next
  case (Cons n ns)
  show ?case
  proof (cases "n \<noteq> t")
    case False
    then show ?thesis using Cons by simp
  next
    case True
    show ?thesis
    proof (cases "net (n @ ''/infer'') req")
      case (Response b)
      then show ?thesis using Cons.prems True by simp
    next
      case (URLError m)
      obtain tried' where rec: "failover net req t ns = (None, tried')" and t: "tried = n # tried'"
        using Cons.prems True URLError by (auto split: prod.splits)
      from Cons.IH[OF rec] show ?thesis using t URLError True by auto
    next
      case (SocketError m)
      obtain tried' where rec: "failover net req t ns = (None, tried')" and t: "tried = n # tried'"
        using Cons.prems True SocketError by (auto split: prod.splits)
      from Cons.IH[OF rec] show ?thesis using t SocketError True by auto
    next
      case (OtherException m)
      obtain tried' where rec: "failover net req t ns = (None, tried')" and t: "tried = n # tried'"
        using Cons.prems True OtherException by (auto split: prod.splits)
      from Cons.IH[OF rec] show ?thesis using t OtherException True by auto
    qed
  qed
qed

lemma get_node_member:
  assumes "ring_inv H r" "get_node H k r = Inr (Some p)"
  shows "p \<in> set (nodes r)"
proof -
  from assms(2) obtain h where "map_of (ring r) h = Some p"
    by (auto simp: get_node_def Let_def split: if_splits option.splits)
  then have "(h, p) \<in> set (ring r)" by (rule map_of_SomeD)
  then show ?thesis using assms(1) by (auto simp: ring_inv_def)
qed

lemma gateway_inv_Gateway: "gateway_inv H (Gateway H ws)"
  by (simp add: gateway_inv_def Gateway_def ring_inv_new_ring new_ring_nodes)

text \<open>
  What \<open>route_request\<close> does, by the outcome of the forward to the primary \<open>p\<close>
  that the ring chooses (a non-empty endpoint name).  A response is returned.  After a
  \<open>URLError\<close> the other members are tried in the order of \<open>get_nodes\<close>: no
  endpoint is contacted twice, so there are at most \<open>|workers| - 1\<close> further forwards;
  the result is the response of the first member that answers, and if none does the error
  is "All workers failed" with the message of the primary's \<open>URLError\<close>, after every
  member has been tried.  Any other exception of the primary's forward, a transport error
  that is not a \<open>URLError\<close> included, leaves \<open>route_request\<close> with no other
  member tried.
\<close>

theorem route_request_failover:
  assumes inv: "gateway_inv H g"
    and primary: "get_node H (request_key req (request_count g + 1)) (hash_ring g) = Inr (Some p)"
    and p: "p \<noteq> []"
    and out: "route_request net H req g = (res, tried, g')"
  shows "tried \<noteq> [] \<and> hd tried = p \<and> distinct tried \<and> set tried \<subseteq> set (workers g) \<and>
         length tried - 1 \<le> length (workers g) - 1 \<and>
         (\<forall>a. net (p @ ''/infer'') req = Response a \<longrightarrow> res = Inr a \<and> tried = [p]) \<and>
         (\<forall>m. net (p @ ''/infer'') req = SocketError m \<or> net (p @ ''/infer'') req = OtherException m
              \<longrightarrow> res = Inl (Uncaught m) \<and> tried = [p]) \<and>
         (\<forall>m. net (p @ ''/infer'') req = URLError m \<longrightarrow>
            (case res of
               Inr a \<Rightarrow>
                 net (last tried @ ''/infer'') req = Response a \<and>
                 (\<forall>n \<in> set (butlast tried). \<forall>b. net (n @ ''/infer'') req \<noteq> Response b)
             | Inl e \<Rightarrow>
                 e = AllWorkersFailed m \<and> set tried = set (workers g) \<and>
                 (\<forall>n \<in> set tried. \<forall>b. net (n @ ''/infer'') req \<noteq> Response b)))"
proof -
  let ?ns = "nodes (hash_ring g)"
  have rinv: "ring_inv H (hash_ring g)" and nw: "set ?ns = set (workers g)"
    using inv by (simp_all add: gateway_inv_def)
  have dn: "distinct ?ns" using rinv by (simp add: ring_inv_def)
  have pm: "p \<in> set ?ns" using rinv primary by (rule get_node_member)
  have len: "length ?ns \<le> length (workers g)"
    using distinct_card[OF dn] card_length[of "workers g"] nw by simp
  obtain fres ftried where f: "failover net req p ?ns = (fres, ftried)"
    by (cases "failover net req p ?ns") auto
  note ft = failover_tried[OF f]
  have fd: "distinct (p # ftried)" "set (p # ftried) \<subseteq> set ?ns"
    using ft dn pm by auto
  have flen: "length (p # ftried) \<le> length ?ns"
    using distinct_card[OF fd(1)] card_mono[OF _ fd(2)] distinct_card[OF dn] by simp
  show ?thesis
  proof (cases "net (p @ ''/infer'') req")
    case (Response a)
    then have "res = Inr a" "tried = [p]"
      using out primary p by (simp_all add: route_request_def Let_def)
    then show ?thesis using Response pm nw by auto
  next
    case (OtherException m)
    then have "res = Inl (Uncaught m)" "tried = [p]"
      using out primary p by (simp_all add: route_request_def Let_def)
    then show ?thesis using OtherException pm nw by auto
  next
    case (SocketError m)
    then have "res = Inl (Uncaught m)" "tried = [p]"
      using out primary p by (simp_all add: route_request_def Let_def)
    then show ?thesis using SocketError pm nw by auto
  next
    case (URLError m)
    show ?thesis
    proof (cases fres)
      case None
      then have r: "res = Inl (AllWorkersFailed m)" "tried = p # ftried"
        using out primary p URLError f by (simp_all add: route_request_def Let_def get_nodes_def)
      note af = failover_all_failed[OF f[unfolded None]]
      have "set tried = set ?ns" using r(2) af pm by auto
      then show ?thesis using r fd flen len nw af URLError by auto
    next
      case (Some a)
      then have r: "res = Inr a" "tried = p # ftried"
        using out primary p URLError f by (simp_all add: route_request_def Let_def get_nodes_def)
      note fs = failover_success[OF f[unfolded Some]]
      then show ?thesis using r fd flen len nw URLError by (auto simp: butlast.simps)
    qed
  qed
qed

theorem route_request_failover_witness:
  "gateway_inv byte_hash
     \<lparr>workers = [''A'', ''B''], hash_ring = new_ring byte_hash [''A'', ''B''] 2, request_count = 0\<rparr> \<and>
   get_node byte_hash (request_key \<lparr>request_id = None, body = ()\<rparr> (0 + 1))
     (new_ring byte_hash [''A'', ''B''] 2) = Inr (Some ''A'') \<and>
   ''A'' \<noteq> [] \<and>
   route_request (\<lambda>url req. if url = ''A/infer'' then URLError ''refused'' else Response (42::nat))
     byte_hash \<lparr>request_id = None, body = ()\<rparr>
     \<lparr>workers = [''A'', ''B''], hash_ring = new_ring byte_hash [''A'', ''B''] 2, request_count = 0\<rparr>
   = (Inr 42, [''A'', ''B''],
      \<lparr>workers = [''A'', ''B''], hash_ring = new_ring byte_hash [''A'', ''B''] 2, request_count = 1\<rparr>) \<and>
   distinct [''A'', ''B''] \<and> length [''A'', ''B''] - 1 \<le> length [''A'', ''B''] - (1::nat)"
proof -
  define g where "g = \<lparr>workers = [''A'', ''B''], hash_ring = new_ring byte_hash [''A'', ''B''] 2,
                        request_count = 0\<rparr>"
  define net where "net = (\<lambda>url (req :: unit request_data).
                             if url = ''A/infer'' then URLError ''refused'' else Response (42::nat))"
  define req where "req = \<lparr>request_id = None, body = ()\<rparr>"
  have inv: "gateway_inv byte_hash g"
    by (simp add: g_def gateway_inv_def ring_inv_new_ring new_ring_nodes)
  have primary: "get_node byte_hash (request_key req (request_count g + 1)) (hash_ring g)
                   = Inr (Some ''A'')"
    unfolding g_def req_def by code_simp
  have p: "''A'' \<noteq> []" by simp
  have out: "route_request net byte_hash req g = (Inr 42, [''A'', ''B''], g\<lparr>request_count := 1\<rparr>)"
    unfolding g_def req_def net_def by code_simp
  from route_request_failover [OF inv primary p out]
  have "distinct [''A'', ''B''] \<and> length [''A'', ''B''] - 1 \<le> length (workers g) - 1" by blast
  then have "distinct [''A'', ''B''] \<and> length [''A'', ''B''] - 1 \<le> length [''A'', ''B''] - (1::nat)"
    by (simp add: g_def)
  then show ?thesis using inv primary p out unfolding g_def req_def net_def by simp
qed

text \<open>
  Claim C7 does not hold of the code.  The handler around the forward to the primary is
  \<open>except urllib.error.URLError\<close>, while the handler inside the retry loop is a bare
  \<open>except\<close>.  A transport error of the primary that \<open>urlopen\<close> does not wrap in
  \<open>URLError\<close> (the worker accepts the connection and does not answer within the
  timeout, or closes the connection before it answers) leaves \<open>route_request\<close> as it
  is: with the ring of \<open>A\<close> and \<open>B\<close> below and \<open>A\<close> the primary, the request
  ends with that exception after the single forward to \<open>A\<close>, although \<open>B\<close> answers;
  had the primary failed with a \<open>URLError\<close>, \<open>B\<close>'s response would have been
  returned.
\<close>

theorem route_request_unwrapped_transport_error:
  "gateway_inv byte_hash
     \<lparr>workers = [''A'', ''B''], hash_ring = new_ring byte_hash [''A'', ''B''] 2, request_count = 0\<rparr> \<and>
   get_node byte_hash (request_key \<lparr>request_id = None, body = ()\<rparr> (0 + 1))
     (new_ring byte_hash [''A'', ''B''] 2) = Inr (Some ''A'') \<and>
   route_request (\<lambda>url req. if url = ''A/infer'' then SocketError ''timed out'' else Response (42::nat))
     byte_hash \<lparr>request_id = None, body = ()\<rparr>
     \<lparr>workers = [''A'', ''B''], hash_ring = new_ring byte_hash [''A'', ''B''] 2, request_count = 0\<rparr>
   = (Inl (Uncaught ''timed out''), [''A''],
      \<lparr>workers = [''A'', ''B''], hash_ring = new_ring byte_hash [''A'', ''B''] 2, request_count = 1\<rparr>) \<and>
   route_request (\<lambda>url req. if url = ''A/infer'' then URLError ''timed out'' else Response (42::nat))
     byte_hash \<lparr>request_id = None, body = ()\<rparr>
     \<lparr>workers = [''A'', ''B''], hash_ring = new_ring byte_hash [''A'', ''B''] 2, request_count = 0\<rparr>
   = (Inr 42, [''A'', ''B''],
      \<lparr>workers = [''A'', ''B''], hash_ring = new_ring byte_hash [''A'', ''B''] 2, request_count = 1\<rparr>)"
proof -
  define g where "g = \<lparr>workers = [''A'', ''B''], hash_ring = new_ring byte_hash [''A'', ''B''] 2,
                        request_count = 0\<rparr>"
  define req where "req = \<lparr>request_id = None, body = ()\<rparr>"
  have inv: "gateway_inv byte_hash g"
    by (simp add: g_def gateway_inv_def ring_inv_new_ring new_ring_nodes)
  have primary: "get_node byte_hash (request_key req (0 + 1)) (new_ring byte_hash [''A'', ''B''] 2)
                   = Inr (Some ''A'')"
    unfolding req_def by code_simp
  have out: "route_request
               (\<lambda>url req. if url = ''A/infer'' then SocketError ''timed out'' else Response (42::nat))
               byte_hash req g
             = (Inl (Uncaught ''timed out''), [''A''], g\<lparr>request_count := 1\<rparr>)"
    unfolding g_def req_def by code_simp
  have out': "route_request
               (\<lambda>url req. if url = ''A/infer'' then URLError ''timed out'' else Response (42::nat))
               byte_hash req g
             = (Inr 42, [''A'', ''B''], g\<lparr>request_count := 1\<rparr>)"
    unfolding g_def req_def by code_simp
  show ?thesis using inv primary out out' unfolding g_def req_def by simp
qed

section \<open>Properties of the batch coalescer\<close>

subsection \<open>Fields that no step changes\<close>

lemma process_batch_fields [simp]:
  "max_batch_size (fst (process_batch b qs trig s)) = max_batch_size s"
  "timeout_ms (fst (process_batch b qs trig s)) = timeout_ms s"
  "process_fn (fst (process_batch b qs trig s)) = process_fn s"
  "request_queue (fst (process_batch b qs trig s)) = request_queue s"
  "running (fst (process_batch b qs trig s)) = running s"
  "threads (fst (process_batch b qs trig s)) = threads s"
  "next_slot (fst (process_batch b qs trig s)) = next_slot s"
  by (simp_all add: process_batch_def Let_def split: fn_result.splits)

lemma process_batch_dispatched:
  "dispatched (fst (process_batch b qs trig s)) =
     (if b = [] then dispatched s else dispatched s @ [(b, qs, trig)])"
  by (simp add: process_batch_def Let_def split: fn_result.splits)

lemma process_batch_metrics:
  "metrics (fst (process_batch b qs trig s)) =
     (if b = [] then metrics s
      else case compute (process_fn s) b of
             Returned results \<Rightarrow> update_metrics (length b) trig (metrics s)
           | Raised e \<Rightarrow> metrics s
           | RaisedBase e \<Rightarrow> metrics s)"
  by (simp add: process_batch_def Let_def split: fn_result.splits)

lemma after_dispatch_fields [simp]:
  "batch (after_dispatch now th exc) = []"
  "result_queues (after_dispatch now th exc) = []"
  by (simp_all add: after_dispatch_def split: option.splits)

lemma loop_got_unfold:
  "loop_got now i s =
     (if i < length (threads s) \<and> in_get (pc (threads s ! i)) then
        (case request_queue s of
           [] \<Rightarrow> s
         | (request, result_queue) # rest \<Rightarrow>
             let th = threads s ! i;
                 b = batch th @ [request];
                 qs = result_queues th @ [result_queue];
                 s1 = s\<lparr>request_queue := rest\<rparr>
             in if int (length b) \<ge> max_batch_size s1 then
                  (fst (process_batch b qs False s1))
                    \<lparr>threads := (threads s)[i :=
                       after_dispatch now th (snd (process_batch b qs False s1))]\<rparr>
                else s1\<lparr>threads := (threads s1)[i :=
                         th\<lparr>pc := AtLoopTest, batch := b, result_queues := qs\<rparr>]\<rparr>)
      else s)"
  by (simp add: loop_got_def Let_def case_prod_beta split: list.splits)

lemma loop_empty_unfold:
  "loop_empty now i s =
     (if i < length (threads s) \<and> in_get (pc (threads s ! i)) \<and> request_queue s = []
      then
        let th = threads s ! i
        in if batch th \<noteq> [] then
             (fst (process_batch (batch th) (result_queues th) True s))
               \<lparr>threads := (threads s)[i :=
                  after_dispatch now th (snd (process_batch (batch th) (result_queues th) True s))]\<rparr>
           else s\<lparr>threads := (threads s)[i := th\<lparr>pc := AtLoopTest, last_batch_time := now\<rparr>]\<rparr>
      else s)"
  by (simp add: loop_empty_def Let_def case_prod_beta)

lemma process_batch_escapes:
  "snd (process_batch b qs trig s) =
     (if b = [] then None
      else case compute (process_fn s) b of
             Returned results \<Rightarrow> None
           | Raised e \<Rightarrow> None
           | RaisedBase e \<Rightarrow> Some e)"
  by (simp add: process_batch_def Let_def split: fn_result.splits)

lemma step_config [simp]:
  "max_batch_size (step e s) = max_batch_size s"
  "timeout_ms (step e s) = timeout_ms s"
  "process_fn (step e s) = process_fn s"
  by (cases e; simp add: start_def stop_def process_enqueue_def loop_test_def loop_got_unfold
        loop_empty_unfold Let_def split: list.splits prod.splits)+

lemma run_config [simp]:
  "max_batch_size (run evs s) = max_batch_size s"
  "timeout_ms (run evs s) = timeout_ms s"
  "process_fn (run evs s) = process_fn s"
  unfolding run_def by (induction evs arbitrary: s; simp)+

lemma run_snoc: "run (evs @ [e]) s = step e (run evs s)"
  by (simp add: run_def)

lemma update_metrics_counts:
  "total_batches (update_metrics n trig m) = total_batches m + 1"
  "full_batches (update_metrics n trig m) = full_batches m + (if trig then 0 else 1)"
  "timeout_batches (update_metrics n trig m) = timeout_batches m + (if trig then 1 else 0)"
  "total_requests (update_metrics n trig m) = total_requests m"
  by (simp_all add: update_metrics_def Let_def)

lemma metrics_ok_process_batch:
  "metrics_ok (metrics s) \<Longrightarrow> metrics_ok (metrics (fst (process_batch b qs trig s)))"
  by (auto simp: metrics_ok_def process_batch_metrics update_metrics_counts split: fn_result.splits)

lemma metrics_ok_step: "metrics_ok (metrics s) \<Longrightarrow> metrics_ok (metrics (step e s))"
proof (cases e)
  case (GetItem i now)
  assume "metrics_ok (metrics s)"
  then show ?thesis using GetItem
    by (auto simp: loop_got_unfold Let_def metrics_ok_process_batch split: list.splits)
next
  case (GetEmpty i now)
  assume "metrics_ok (metrics s)"
  then show ?thesis using GetEmpty
    by (auto simp: loop_empty_unfold Let_def metrics_ok_process_batch)
qed (auto simp: metrics_ok_def start_def stop_def process_enqueue_def loop_test_def Let_def)

lemma metrics_ok_run: "metrics_ok (metrics s) \<Longrightarrow> metrics_ok (metrics (run evs s))"
  unfolding run_def by (induction evs arbitrary: s) (simp_all add: metrics_ok_step)

subsection \<open>Metrics\<close>

text \<open>
  Claim C10.  In every state the processor reaches, \<open>total_batches\<close> is the sum of
  \<open>full_batches\<close> and \<open>timeout_batches\<close>.  A call of \<open>_process_batch\<close> on a
  non-empty batch whose compute function returns adds one to \<open>total_batches\<close> and one
  to exactly one of the other two counters, by the \<open>timeout\<close> flag; when the compute
  function raises, the metrics, \<open>avg_batch_size\<close> included, are unchanged.
\<close>

theorem metrics_total_is_full_plus_timeout:
  "(let m = metrics (run evs (BatchProcessor n t fn))
    in total_batches m = full_batches m + timeout_batches m) \<and>
   (b \<noteq> [] \<longrightarrow>
      (case compute (process_fn s) b of
         Returned results \<Rightarrow>
           (let m = metrics s; m' = metrics (fst (process_batch b qs trig s))
            in total_batches m' = total_batches m + 1 \<and>
               (if trig
                then timeout_batches m' = timeout_batches m + 1 \<and> full_batches m' = full_batches m
                else full_batches m' = full_batches m + 1 \<and> timeout_batches m' = timeout_batches m))
       | Raised e \<Rightarrow> metrics (fst (process_batch b qs trig s)) = metrics s
       | RaisedBase e \<Rightarrow> metrics (fst (process_batch b qs trig s)) = metrics s))"
proof -
  have "metrics_ok (metrics (BatchProcessor n t fn))"
    by (simp add: metrics_ok_def BatchProcessor_def)
  then have "metrics_ok (metrics (run evs (BatchProcessor n t fn)))" by (rule metrics_ok_run)
  then show ?thesis
    by (auto simp: metrics_ok_def Let_def process_batch_metrics update_metrics_counts
             split: fn_result.splits)
qed

theorem metrics_total_is_full_plus_timeout_witness:
  "[5::nat] \<noteq> [] \<and>
   compute (process_fn (BatchProcessor 2 20 (Some (\<lambda>b. Raised ''boom'')))) [5::nat] = Raised ''boom'' \<and>
   metrics (fst (process_batch [5::nat] [0] True (BatchProcessor 2 20 (Some (\<lambda>b. Raised ''boom'')))))
     = metrics (BatchProcessor 2 20 (Some (\<lambda>b. Raised ''boom'')) :: nat batch_processor) \<and>
   compute (process_fn (BatchProcessor 2 20 None)) [5::nat] = Returned [5] \<and>
   total_batches (metrics (fst (process_batch [5::nat] [0] True (BatchProcessor 2 20 None)))) = 1 \<and>
   timeout_batches (metrics (fst (process_batch [5::nat] [0] True (BatchProcessor 2 20 None)))) = 1 \<and>
   full_batches (metrics (fst (process_batch [5::nat] [0] True (BatchProcessor 2 20 None)))) = 0"
proof -
  have c1: "compute (process_fn (BatchProcessor 2 20 (Some (\<lambda>b. Raised ''boom'')))) [5::nat] = Raised ''boom''"
    by (simp add: compute_def BatchProcessor_def)
  have c2: "compute (process_fn (BatchProcessor 2 20 None)) [5::nat] = Returned [5]"
    by (simp add: compute_def BatchProcessor_def)
  have m0: "metrics (BatchProcessor 2 20 None :: nat batch_processor)
     = \<lparr>total_requests = 0, total_batches = 0, avg_batch_size = 0,
                  timeout_batches = 0, full_batches = 0\<rparr>"
    by (simp add: BatchProcessor_def)
  from metrics_total_is_full_plus_timeout
         [where evs = "[]" and n = 2 and t = 20 and fn = "Some (\<lambda>b. Raised ''boom'')"
            and b = "[5::nat]" and s = "BatchProcessor 2 20 (Some (\<lambda>b. Raised ''boom''))"
            and qs = "[0]" and trig = True]
       metrics_total_is_full_plus_timeout
         [where evs = "[]" and n = 2 and t = 20 and fn = None
            and b = "[5::nat]" and s = "BatchProcessor 2 20 None" and qs = "[0]" and trig = True]
  show ?thesis
    by (auto simp: c1 c2 m0 Let_def)
qed

subsection \<open>Batch size\<close>

lemma set_update_cases:
  "x \<in> set (xs[i := y]) \<Longrightarrow> x = y \<or> x \<in> set xs"
  using set_update_subset_insert[of xs i y] by auto

lemma batch_bound_inv_step:
  assumes inv: "batch_bound_inv s" and m: "1 \<le> max_batch_size s"
  shows "batch_bound_inv (step e s)"
proof (cases e)
  case (Start now)
  then show ?thesis using inv m by (auto simp: batch_bound_inv_def start_def)
next
  case Stop
  then show ?thesis using inv by (auto simp: batch_bound_inv_def stop_def)
next
  case (Submit r)
  then show ?thesis using inv by (auto simp: batch_bound_inv_def process_enqueue_def Let_def)
next
  case (LoopTest i now)
  then show ?thesis using inv
    by (auto simp: batch_bound_inv_def loop_test_def Let_def dest!: set_update_cases)
next
  case (GetItem i now)
  show ?thesis
  proof (cases "i < length (threads s) \<and> in_get (pc (threads s ! i)) \<and> request_queue s \<noteq> []")
    case False
    then show ?thesis using inv GetItem by (auto simp: loop_got_unfold split: list.splits)
  next
    case True
    then obtain r q rest where rq: "request_queue s = (r, q) # rest"
      by (cases "request_queue s") auto
    have th: "threads s ! i \<in> set (threads s)" using True by simp
    then have lt: "int (length (batch (threads s ! i))) < max_batch_size s"
      using inv by (simp add: batch_bound_inv_def)
    have full: "max_batch_size s \<le> 1 + int (length (batch (threads s ! i))) \<Longrightarrow>
                1 + int (length (batch (threads s ! i))) = max_batch_size s"
      and part: "\<not> max_batch_size s \<le> 1 + int (length (batch (threads s ! i))) \<Longrightarrow>
                1 + int (length (batch (threads s ! i))) < max_batch_size s"
      using lt by auto
    show ?thesis
      using True rq inv m GetItem full part
      by (auto simp: batch_bound_inv_def loop_got_unfold Let_def process_batch_dispatched
               dest!: set_update_cases)
  qed
next
  case (GetEmpty i now)
  show ?thesis
  proof (cases "i < length (threads s) \<and> in_get (pc (threads s ! i)) \<and> request_queue s = []")
    case False
    then show ?thesis using inv GetEmpty by (auto simp: loop_empty_unfold)
  next
    case True
    have th: "threads s ! i \<in> set (threads s)" using True by simp
    then have lt: "int (length (batch (threads s ! i))) < max_batch_size s"
      using inv by (simp add: batch_bound_inv_def)
    then have le: "int (length (batch (threads s ! i))) \<le> max_batch_size s" by simp
    show ?thesis
      using True inv le m GetEmpty
      by (auto simp: batch_bound_inv_def loop_empty_unfold Let_def process_batch_dispatched
               dest!: set_update_cases)
  qed
qed

lemma batch_bound_inv_run:
  "batch_bound_inv s \<Longrightarrow> 1 \<le> max_batch_size s \<Longrightarrow> batch_bound_inv (run evs s)"
proof (induction evs rule: rev_induct)
  case Nil
  then show ?case by (simp add: run_def)
next
  case (snoc e evs)
  then show ?case by (simp add: run_snoc batch_bound_inv_step)
qed

text \<open>
  Claim C3.  With \<open>max_batch_size \<ge> 1\<close>, every batch that reaches the compute function,
  in any run of the processor, has between 1 and \<open>max_batch_size\<close> requests; a batch
  dispatched as full has exactly \<open>max_batch_size\<close>; and no dispatch thread is ever left
  holding a batch that has reached the bound: the step that adds the last request dispatches it.
\<close>

theorem dispatched_batch_size_bound:
  assumes "1 \<le> n"
  shows "(\<forall>(b, qs, trig) \<in> set (dispatched (run evs (BatchProcessor n t fn))).
            1 \<le> length b \<and> int (length b) \<le> n \<and> (\<not> trig \<longrightarrow> int (length b) = n)) \<and>
         (\<forall>th \<in> set (threads (run evs (BatchProcessor n t fn))). int (length (batch th)) < n)"
proof -
  have "batch_bound_inv (BatchProcessor n t fn)"
    by (simp add: batch_bound_inv_def BatchProcessor_def)
  moreover have "1 \<le> max_batch_size (BatchProcessor n t fn)"
    using assms by (simp add: BatchProcessor_def)
  ultimately have "batch_bound_inv (run evs (BatchProcessor n t fn))"
    by (rule batch_bound_inv_run)
  moreover have "max_batch_size (run evs (BatchProcessor n t fn)) = n"
    by (simp add: BatchProcessor_def)
  ultimately show ?thesis
    by (auto simp: batch_bound_inv_def Suc_le_eq)
qed

theorem dispatched_batch_size_bound_witness:
  "(1::int) \<le> 2 \<and>
   dispatched (run [Start 0, LoopTest 0 0, Submit (1::nat), GetItem 0 1,
       LoopTest 0 1, Submit 2, GetItem 0 2] (BatchProcessor 2 5000 None))
     = [([1, 2], [0, 1], False)] \<and>
   1 \<le> length [1::nat, 2] \<and> int (length [1::nat, 2]) \<le> 2 \<and> int (length [1::nat, 2]) = 2"
proof -
  have h: "(1::int) \<le> 2" by simp
  define S where "S = run [Start 0, LoopTest 0 0, Submit (1::nat), GetItem 0 1,
       LoopTest 0 1, Submit 2, GetItem 0 2] (BatchProcessor 2 5000 None)"
  have ev: "dispatched S = [([1, 2], [0, 1], False)]"
    unfolding S_def by code_simp
  then have mem: "([1, 2], [0, 1], False) \<in> set (dispatched S)" by simp
  have "\<forall>(b, qs, trig) \<in> set (dispatched S).
          1 \<le> length b \<and> int (length b) \<le> 2 \<and> (\<not> trig \<longrightarrow> int (length b) = 2)"
    using dispatched_batch_size_bound [OF h, where evs = "[Start 0, LoopTest 0 0, Submit (1::nat), GetItem 0 1,
       LoopTest 0 1, Submit 2, GetItem 0 2]" and t = 5000 and fn = None]
    unfolding S_def by blast
  with mem have "1 \<le> length [1::nat, 2] \<and> int (length [1::nat, 2]) \<le> 2 \<and>
                 int (length [1::nat, 2]) = 2"
    by fast
  then show ?thesis using h ev unfolding S_def by blast
qed

subsection \<open>Delivery into the result queues\<close>

lemma put_results_other:
  "q \<notin> snd ` set ps \<Longrightarrow> put_results ps sl q = sl q"
  by (induction ps sl rule: put_results.induct) auto

lemma put_results_nth:
  "distinct (map snd ps) \<Longrightarrow> i < length ps \<Longrightarrow>
   put_results ps sl (snd (ps ! i)) = sl (snd (ps ! i)) @ [fst (ps ! i)]"
proof (induction ps sl arbitrary: i rule: put_results.induct)
  case (1 sl)
  then show ?case by simp
next
  case (2 v q rest sl)
  show ?case
  proof (cases i)
    case 0
    have "q \<notin> snd ` set rest" using "2.prems"(1) by auto
    then show ?thesis using 0 by (simp add: put_results_other)
  next
    case (Suc j)
    have j: "j < length rest" using "2.prems"(2) Suc by simp
    then have "snd (rest ! j) \<in> snd ` set rest" by (metis nth_mem image_eqI)
    then have ne: "snd (rest ! j) \<noteq> q" using "2.prems"(1) by auto
    have dr: "distinct (map snd rest)" using "2.prems"(1) by simp
    have IH: "put_results rest (sl(q := sl q @ [v])) (snd (rest ! j))
            = (sl(q := sl q @ [v])) (snd (rest ! j)) @ [fst (rest ! j)]"
      using dr j by (rule "2.IH")
    show ?thesis unfolding Suc by (simp add: IH ne)
  qed
qed

lemma process_batch_slots_other:
  "q \<notin> set qs \<Longrightarrow> slots (fst (process_batch b qs trig s)) q = slots s q"
proof -
  assume q: "q \<notin> set qs"
  have "q \<notin> snd ` set (zip xs qs)" for xs :: "'a slot_value list"
    using q by (auto dest: set_zip_rightD)
  moreover have "q \<notin> snd ` set (map (\<lambda>q. (v, q)) qs)" for v :: "'a slot_value"
    using q by auto
  ultimately show ?thesis
    by (simp add: process_batch_def Let_def put_results_other split: fn_result.splits)
qed

lemma process_batch_delivered:
  assumes ne: "b \<noteq> []" and d: "distinct qs" and e: "\<forall>q \<in> set qs. slots s q = []"
  shows "delivered (process_fn s) (slots (fst (process_batch b qs trig s))) b qs"
proof (cases "compute (process_fn s) b")
  case (RaisedBase msg)
  then show ?thesis using ne e
    by (simp add: delivered_def process_batch_def Let_def)
next
  case (Raised msg)
  let ?ps = "map (\<lambda>q. (ErrorDict msg :: 'a slot_value, q)) qs"
  have dps: "distinct (map snd ?ps)" using d by (simp add: comp_def)
  have "put_results ?ps (slots s) (qs ! i) = [ErrorDict msg]" if "i < length qs" for i
    using put_results_nth[OF dps, of i "slots s"] that e by simp
  then show ?thesis using Raised ne
    by (simp add: delivered_def process_batch_def Let_def)
next
  case (Returned results)
  let ?ps = "zip (map Result results) qs"
  have snd_ps: "map snd ?ps = take (length results) qs"
    by (simp add: map_snd_zip_take min_def)
  have dps: "distinct (map snd ?ps)" using d by (simp add: snd_ps)
  have hit: "put_results ?ps (slots s) (qs ! i) = [Result (results ! i)]"
    if "i < length qs" "i < length results" for i
    using put_results_nth[OF dps, of i "slots s"] that e by simp
  have miss: "put_results ?ps (slots s) (qs ! i) = []"
    if "i < length qs" "\<not> i < length results" for i
  proof -
    have "qs ! i \<notin> set (take (length results) qs)"
    proof
      assume "qs ! i \<in> set (take (length results) qs)"
      then obtain j where j: "j < length results" "j < length qs" "qs ! j = qs ! i"
        by (auto simp: in_set_conv_nth)
      with d that have "j = i" by (simp add: nth_eq_iff_index_eq)
      with j that show False by simp
    qed
    then have "qs ! i \<notin> snd ` set ?ps" using snd_ps by (metis set_map)
    then show ?thesis using that e by (simp add: put_results_other)
  qed
  show ?thesis using Returned ne hit miss
    by (simp add: delivered_def process_batch_def Let_def)
qed

lemma process_batch_length_le:
  assumes d: "distinct qs" and e: "\<forall>q \<in> set qs. slots s q = []" and q: "q \<in> set qs"
  shows "length (slots (fst (process_batch b qs trig s)) q) \<le> 1"
proof (cases "b = []")
  case True
  then show ?thesis using e q by (simp add: process_batch_def)
next
  case False
  from q obtain i where i: "i < length qs" "q = qs ! i" by (auto simp: in_set_conv_nth)
  have "delivered (process_fn s) (slots (fst (process_batch b qs trig s))) b qs"
    using False d e by (rule process_batch_delivered)
  then show ?thesis using i
    by (auto simp: delivered_def split: fn_result.splits if_splits)
qed

lemma thread_ok_lt:
  "thread_ok subs s th \<Longrightarrow> q \<in> set (result_queues th) \<Longrightarrow> q < length subs"
  unfolding thread_ok_def by (metis in_set_conv_nth)

lemma queue_ok_lt:
  "queue_ok subs s \<Longrightarrow> q \<in> snd ` set (request_queue s) \<Longrightarrow> q < length subs"
  unfolding queue_ok_def by auto

lemma dispatch_ok_lt:
  "dispatch_ok subs s (b, qs, trig) \<Longrightarrow> q \<in> set qs \<Longrightarrow> q < length subs"
  unfolding dispatch_ok_def by (auto simp: in_set_conv_nth)

lemma inv_start:
  assumes inv: "slots_inv subs s"
  shows "slots_inv subs (start now s)"
proof (cases "running s")
  case True
  then show ?thesis using inv by (simp add: start_def)
next
  case False
  let ?new = "\<lparr>pc = AtLoopTest, batch = [], result_queues = [], last_batch_time = now\<rparr> :: 'a loop_state"
  have st: "start now s = s\<lparr>running := True, threads := threads s @ [?new]\<rparr>"
    using False by (simp add: start_def)
  have p: "pending (start now s) = pending s" by (auto simp: st pending_def)
  have q: "queue_ok subs (start now s)" using inv by (simp add: st slots_inv_def queue_ok_def)
  have t: "\<forall>th \<in> set (threads (start now s)). thread_ok subs (start now s) th"
    using inv by (auto simp: st slots_inv_def thread_ok_def)
  have d: "threads_disjoint (threads (start now s))"
    using inv unfolding st slots_inv_def threads_disjoint_def
    by (auto simp: nth_append)
  have sl: "slots_ok subs (start now s)"
    using inv p unfolding slots_inv_def slots_ok_def by (simp add: st)
  have di: "\<forall>d \<in> set (dispatched (start now s)). dispatch_ok subs (start now s) d"
    using inv p unfolding slots_inv_def dispatch_ok_def by (simp add: st)
  show ?thesis using q t d sl di by (simp add: slots_inv_def)
qed

lemma inv_stop: "slots_inv subs s \<Longrightarrow> slots_inv subs (stop s)"
  by (simp add: stop_def slots_inv_def queue_ok_def thread_ok_def slots_ok_def dispatch_ok_def
        pending_def)

lemma inv_submit:
  assumes inv: "slots_inv subs s"
  shows "slots_inv (subs @ [r]) (snd (process_enqueue r s))"
proof -
  let ?n = "length subs"
  let ?s' = "snd (process_enqueue r s)"
  have n: "next_slot s = ?n" using inv by (simp add: slots_inv_def queue_ok_def)
  have st: "?s' = s\<lparr>next_slot := ?n + 1, request_queue := request_queue s @ [(r, ?n)],
            metrics := (metrics s)\<lparr>total_requests := total_requests (metrics s) + 1\<rparr>\<rparr>"
    by (simp add: process_enqueue_def Let_def n)
  have p: "pending ?s' = insert ?n (pending s)" by (auto simp: st pending_def)
  have qlt: "q < ?n" if "q \<in> snd ` set (request_queue s)" for q
    using inv that by (auto simp: slots_inv_def queue_ok_def)
  have q: "queue_ok (subs @ [r]) ?s'"
    using inv qlt unfolding slots_inv_def queue_ok_def
    by (auto simp: st nth_append)
  have tlt: "q < ?n" if "th \<in> set (threads s)" "q \<in> set (result_queues th)" for th q
    using inv that thread_ok_lt[of subs s th q] by (auto simp: slots_inv_def)
  have t: "\<forall>th \<in> set (threads ?s'). thread_ok (subs @ [r]) ?s' th"
  proof
    fix th assume th: "th \<in> set (threads ?s')"
    then have th': "th \<in> set (threads s)" by (simp add: st)
    then have ok: "thread_ok subs s th" using inv by (simp add: slots_inv_def)
    have "?n \<notin> set (result_queues th)" using tlt[OF th'] by auto
    then show "thread_ok (subs @ [r]) ?s' th"
      using ok unfolding thread_ok_def by (auto simp: st nth_append)
  qed
  have d: "threads_disjoint (threads ?s')" using inv by (simp add: st slots_inv_def)
  have sl: "slots_ok (subs @ [r]) ?s'"
    using inv unfolding slots_inv_def slots_ok_def p by (auto simp: st)
  have di: "\<forall>d \<in> set (dispatched ?s'). dispatch_ok (subs @ [r]) ?s' d"
  proof
    fix d assume "d \<in> set (dispatched ?s')"
    then have ok: "dispatch_ok subs s d" using inv by (simp add: st slots_inv_def)
    obtain b qs trig where dd: "d = (b, qs, trig)" by (cases d) auto
    have "?n \<notin> set qs" using ok dispatch_ok_lt[of subs s b qs trig ?n] by (auto simp: dd)
    then show "dispatch_ok (subs @ [r]) ?s' d"
      using ok unfolding dispatch_ok_def dd p by (auto simp: st nth_append)
  qed
  show ?thesis using q t d sl di by (simp add: slots_inv_def)
qed

lemma pending_iff:
  "q \<in> pending s \<longleftrightarrow>
     q \<in> snd ` set (request_queue s) \<or>
     (\<exists>j < length (threads s). q \<in> set (result_queues (threads s ! j)))"
proof -
  have "(\<exists>th \<in> set (threads s). q \<in> set (result_queues th)) \<longleftrightarrow>
        (\<exists>j < length (threads s). q \<in> set (result_queues (threads s ! j)))"
    by (metis in_set_conv_nth)
  then show ?thesis unfolding pending_def by auto
qed

lemma threads_ok_nth:
  "(\<forall>th \<in> set (threads s). thread_ok subs s th) \<longleftrightarrow>
   (\<forall>j < length (threads s). thread_ok subs s (threads s ! j))"
  by (simp add: all_set_conv_all_nth)

lemma thread_ok_cong:
  "request_queue s' = request_queue s \<Longrightarrow> thread_ok subs s' th = thread_ok subs s th"
  by (simp add: thread_ok_def)

lemma queue_ok_cong:
  "request_queue s' = request_queue s \<Longrightarrow> next_slot s' = next_slot s \<Longrightarrow>
   queue_ok subs s' = queue_ok subs s"
  by (simp add: queue_ok_def)

lemma slots_ok_cong:
  "pending s' = pending s \<Longrightarrow> slots s' = slots s \<Longrightarrow> slots_ok subs s' = slots_ok subs s"
  by (simp add: slots_ok_def)

lemma dispatch_ok_cong:
  "pending s' = pending s \<Longrightarrow> slots s' = slots s \<Longrightarrow> process_fn s' = process_fn s \<Longrightarrow>
   dispatch_ok subs s' d = dispatch_ok subs s d"
  by (simp add: dispatch_ok_def)

text \<open>A thread changes its program counter or its clock reading only.\<close>

lemma inv_thread_same:
  assumes inv: "slots_inv subs s" and i: "i < length (threads s)"
    and b: "batch th' = batch (threads s ! i)"
    and r: "result_queues th' = result_queues (threads s ! i)"
  shows "slots_inv subs (s\<lparr>threads := (threads s)[i := th']\<rparr>)"
proof -
  let ?s' = "s\<lparr>threads := (threads s)[i := th']\<rparr>"
  have rq: "result_queues (threads ?s' ! j) = result_queues (threads s ! j)"
    and bt: "batch (threads ?s' ! j) = batch (threads s ! j)" if "j < length (threads s)" for j
    using that i b r by (simp_all add: nth_list_update)
  have p: "pending ?s' = pending s"
    using rq by (auto simp: pending_iff)
  have q: "queue_ok subs ?s'" using inv by (simp add: slots_inv_def queue_ok_def)
  have t: "\<forall>j < length (threads ?s'). thread_ok subs ?s' (threads ?s' ! j)"
  proof (intro allI impI)
    fix j assume j: "j < length (threads ?s')"
    then have j': "j < length (threads s)" by simp
    then have "thread_ok subs s (threads s ! j)" using inv by (simp add: slots_inv_def)
    then show "thread_ok subs ?s' (threads ?s' ! j)"
      unfolding thread_ok_def using rq[OF j'] bt[OF j'] by simp
  qed
  have d: "threads_disjoint (threads ?s')"
    using inv rq unfolding slots_inv_def threads_disjoint_def by simp
  have sl: "slots_ok subs ?s'" using inv slots_ok_cong[OF p, of subs] by (simp add: slots_inv_def)
  have di: "\<forall>d \<in> set (dispatched ?s'). dispatch_ok subs ?s' d"
    using inv dispatch_ok_cong[OF p, of subs] by (simp add: slots_inv_def)
  show ?thesis using q t d sl di unfolding slots_inv_def threads_ok_nth by simp
qed

lemma inv_loop_test: "slots_inv subs s \<Longrightarrow> slots_inv subs (loop_test now i s)"
  unfolding loop_test_def Let_def by (auto intro!: inv_thread_same)

text \<open>A thread takes the head of the request queue into its batch.\<close>

lemma inv_move:
  assumes inv: "slots_inv subs s" and i: "i < length (threads s)"
    and hd: "request_queue s = (r, q) # rest"
    and th': "th' = (threads s ! i)\<lparr>pc := p, batch := batch (threads s ! i) @ [r],
                result_queues := result_queues (threads s ! i) @ [q]\<rparr>"
  shows "slots_inv subs (s\<lparr>request_queue := rest, threads := (threads s)[i := th']\<rparr>)"
proof -
  let ?s' = "s\<lparr>request_queue := rest, threads := (threads s)[i := th']\<rparr>"
  let ?th = "threads s ! i"
  have qok: "queue_ok subs s" and tok: "\<And>j. j < length (threads s) \<Longrightarrow> thread_ok subs s (threads s ! j)"
    and dis: "threads_disjoint (threads s)"
    using inv by (simp_all add: slots_inv_def threads_ok_nth)
  have qr: "q < length subs" "subs ! q = r" "q \<notin> snd ` set rest" "distinct (map snd rest)"
    using qok hd by (auto simp: queue_ok_def)
  have qnot: "q \<notin> set (result_queues (threads s ! j))" if "j < length (threads s)" for j
    using tok[OF that] hd by (auto simp: thread_ok_def)
  have rq_i: "result_queues (threads ?s' ! i) = result_queues ?th @ [q]"
    and rq_o: "\<And>j. j < length (threads s) \<Longrightarrow> j \<noteq> i \<Longrightarrow> threads ?s' ! j = threads s ! j"
    using i th' by simp_all
  have p: "pending ?s' = pending s"
  proof (rule set_eqI)
    fix x
    show "x \<in> pending ?s' \<longleftrightarrow> x \<in> pending s"
    proof
      assume "x \<in> pending ?s'"
      then consider "x \<in> snd ` set rest"
        | j where "j < length (threads s)" "x \<in> set (result_queues (threads ?s' ! j))"
        by (auto simp: pending_iff)
      then show "x \<in> pending s"
      proof cases
        case 1
        then show ?thesis using hd by (auto simp: pending_iff)
      next
        case 2
        show ?thesis
        proof (cases "j = i")
          case True
          then have "x = q \<or> x \<in> set (result_queues ?th)" using 2 rq_i by auto
          then show ?thesis using hd i by (auto simp: pending_iff)
        next
          case False
          then show ?thesis using 2 rq_o[of j] by (auto simp: pending_iff)
        qed
      qed
    next
      assume "x \<in> pending s"
      then consider "x = q" | "x \<in> snd ` set rest"
        | j where "j < length (threads s)" "x \<in> set (result_queues (threads s ! j))"
        using hd by (auto simp: pending_iff)
      then show "x \<in> pending ?s'"
      proof cases
        case 1
        have "x \<in> set (result_queues (threads ?s' ! i))" using 1 rq_i by simp
        then show ?thesis using i unfolding pending_iff by auto
      next
        case 2
        then show ?thesis by (auto simp: pending_iff)
      next
        case 3
        have "x \<in> set (result_queues (threads ?s' ! j))"
          using 3 rq_i rq_o[of j] by (cases "j = i") auto
        then show ?thesis using 3(1) unfolding pending_iff by auto
      qed
    qed
  qed
  have q': "queue_ok subs ?s'"
    using qok hd by (auto simp: queue_ok_def)
  have t: "\<forall>j < length (threads ?s'). thread_ok subs ?s' (threads ?s' ! j)"
  proof (intro allI impI)
    fix j assume "j < length (threads ?s')"
    then have j: "j < length (threads s)" by simp
    have old: "thread_ok subs s (threads s ! j)" by (rule tok[OF j])
    show "thread_ok subs ?s' (threads ?s' ! j)"
    proof (cases "j = i")
      case False
      then show ?thesis using old rq_o[OF j] hd by (auto simp: thread_ok_def)
    next
      case True
      have "thread_ok subs ?s' th'"
        using old qr qnot[OF i] hd unfolding True thread_ok_def th'
        by (auto simp: nth_append)
      then show ?thesis using True i by simp
    qed
  qed
  have d: "threads_disjoint (threads ?s')"
    unfolding threads_disjoint_def
  proof (intro allI impI)
    fix j k assume jk: "j < length (threads ?s')" "k < length (threads ?s')" "j \<noteq> k"
    then have j: "j < length (threads s)" and k: "k < length (threads s)" by simp_all
    have old: "set (result_queues (threads s ! j)) \<inter> set (result_queues (threads s ! k)) = {}"
      using dis j k jk(3) by (simp add: threads_disjoint_def)
    show "set (result_queues (threads ?s' ! j)) \<inter> set (result_queues (threads ?s' ! k)) = {}"
    proof (cases "j = i")
      case True
      then have "k \<noteq> i" using jk(3) by simp
      then show ?thesis using old rq_i rq_o[OF k] qnot[OF k] True by auto
    next
      case False
      show ?thesis
      proof (cases "k = i")
        case True
        then show ?thesis using old rq_i rq_o[OF j False] qnot[OF j] by auto
      next
        case False
        then show ?thesis using old rq_o[OF j \<open>j \<noteq> i\<close>] rq_o[OF k False] by simp
      qed
    qed
  qed
  have sl: "slots_ok subs ?s'" using inv slots_ok_cong[OF p, of subs] by (simp add: slots_inv_def)
  have di: "\<forall>d \<in> set (dispatched ?s'). dispatch_ok subs ?s' d"
    using inv dispatch_ok_cong[OF p, of subs] by (simp add: slots_inv_def)
  show ?thesis using q' t d sl di unfolding slots_inv_def threads_ok_nth by simp
qed

lemma delivered_cong:
  "(\<And>q. q \<in> set qs \<Longrightarrow> sl' q = sl q) \<Longrightarrow> delivered fn sl' b qs = delivered fn sl b qs"
  unfolding delivered_def by (auto split: fn_result.splits)

text \<open>A thread dispatches its batch and starts an empty one.\<close>

lemma inv_dispatch:
  assumes inv: "slots_inv subs s" and i: "i < length (threads s)"
    and ne: "batch (threads s ! i) \<noteq> []"
    and new: "batch th' = []" "result_queues th' = []"
  shows "slots_inv subs
           ((fst (process_batch (batch (threads s ! i)) (result_queues (threads s ! i)) trig s))
              \<lparr>threads := (threads s)[i := th']\<rparr>)"
proof -
  let ?b = "batch (threads s ! i)"
  let ?qs = "result_queues (threads s ! i)"
  let ?s2 = "fst (process_batch ?b ?qs trig s)"
  let ?s' = "?s2\<lparr>threads := (threads s)[i := th']\<rparr>"
  have qok: "queue_ok subs s" and tok: "\<And>j. j < length (threads s) \<Longrightarrow> thread_ok subs s (threads s ! j)"
    and dis: "threads_disjoint (threads s)" and sok: "slots_ok subs s"
    and dok: "\<And>d. d \<in> set (dispatched s) \<Longrightarrow> dispatch_ok subs s d"
    using inv by (simp_all add: slots_inv_def threads_ok_nth)
  have ti: "thread_ok subs s (threads s ! i)" by (rule tok[OF i])
  have len: "length ?qs = length ?b" and dqs: "distinct ?qs"
    and qsq: "set ?qs \<inter> snd ` set (request_queue s) = {}"
    and idx: "\<And>k. k < length ?qs \<Longrightarrow> ?qs ! k < length subs \<and> subs ! (?qs ! k) = ?b ! k"
    using ti by (simp_all add: thread_ok_def)
  have qs_pend: "set ?qs \<subseteq> pending s" using i by (auto simp: pending_iff)
  have empty: "\<forall>q \<in> set ?qs. slots s q = []" using sok qs_pend by (auto simp: slots_ok_def)
  have rq_i: "result_queues (threads ?s' ! i) = []"
    and rq_o: "\<And>j. j < length (threads s) \<Longrightarrow> j \<noteq> i \<Longrightarrow> threads ?s' ! j = threads s ! j"
    using i new by simp_all
  have p_sub: "pending ?s' \<subseteq> pending s"
  proof
    fix x assume "x \<in> pending ?s'"
    then consider "x \<in> snd ` set (request_queue s)"
      | j where "j < length (threads s)" "x \<in> set (result_queues (threads ?s' ! j))"
      by (auto simp: pending_iff)
    then show "x \<in> pending s"
    proof cases
      case 1
      then show ?thesis by (simp add: pending_iff)
    next
      case 2
      then have "j \<noteq> i" using rq_i by auto
      then show ?thesis using 2 rq_o[of j] unfolding pending_iff by auto
    qed
  qed
  have p_dis: "set ?qs \<inter> pending ?s' = {}"
  proof (rule ccontr)
    assume "set ?qs \<inter> pending ?s' \<noteq> {}"
    then obtain x where x: "x \<in> set ?qs" "x \<in> pending ?s'" by auto
    then consider "x \<in> snd ` set (request_queue s)"
      | j where "j < length (threads s)" "x \<in> set (result_queues (threads ?s' ! j))"
      by (auto simp: pending_iff)
    then show False
    proof cases
      case 1
      then show ?thesis using qsq x(1) by auto
    next
      case 2
      then have ji: "j \<noteq> i" using rq_i by auto
      then have "x \<in> set (result_queues (threads s ! j))" using 2 rq_o[of j] by simp
      moreover have "set ?qs \<inter> set (result_queues (threads s ! j)) = {}"
        using dis i 2(1) ji by (simp add: threads_disjoint_def)
      ultimately show ?thesis using x(1) by auto
    qed
  qed
  have sl_other: "slots ?s' q = slots s q" if "q \<notin> set ?qs" for q
    using that by (simp add: process_batch_slots_other)
  have q': "queue_ok subs ?s'" using qok by (simp add: queue_ok_def)
  have t: "\<forall>j < length (threads ?s'). thread_ok subs ?s' (threads ?s' ! j)"
  proof (intro allI impI)
    fix j assume "j < length (threads ?s')"
    then have j: "j < length (threads s)" by simp
    show "thread_ok subs ?s' (threads ?s' ! j)"
    proof (cases "j = i")
      case True
      then show ?thesis using i new by (simp add: thread_ok_def)
    next
      case False
      then show ?thesis using tok[OF j] rq_o[OF j] by (simp add: thread_ok_def)
    qed
  qed
  have d: "threads_disjoint (threads ?s')"
    unfolding threads_disjoint_def
  proof (intro allI impI)
    fix j k assume jk: "j < length (threads ?s')" "k < length (threads ?s')" "j \<noteq> k"
    then have j: "j < length (threads s)" and k: "k < length (threads s)" by simp_all
    show "set (result_queues (threads ?s' ! j)) \<inter> set (result_queues (threads ?s' ! k)) = {}"
    proof (cases "j = i \<or> k = i")
      case True
      then show ?thesis using rq_i by auto
    next
      case False
      then show ?thesis using dis j k jk(3) rq_o[OF j] rq_o[OF k]
        by (simp add: threads_disjoint_def)
    qed
  qed
  have sl: "slots_ok subs ?s'"
    unfolding slots_ok_def
  proof (intro conjI ballI allI impI)
    fix q assume "q \<in> pending ?s'"
    then have "q \<notin> set ?qs" "q \<in> pending s" using p_dis p_sub by auto
    then show "slots ?s' q = []" using sl_other sok by (simp add: slots_ok_def)
  next
    fix q assume "length subs \<le> q"
    then have "q \<notin> set ?qs" using thread_ok_lt[OF ti, of q] by auto
    then show "slots ?s' q = []" using sl_other sok \<open>length subs \<le> q\<close> by (simp add: slots_ok_def)
  next
    fix q
    show "length (slots ?s' q) \<le> 1"
    proof (cases "q \<in> set ?qs")
      case True
      then show ?thesis using process_batch_length_le[OF dqs empty True, of ?b trig] by simp
    next
      case False
      then show ?thesis using sl_other sok by (simp add: slots_ok_def)
    qed
  qed
  have disp: "dispatched ?s' = dispatched s @ [(?b, ?qs, trig)]"
    using ne by (simp add: process_batch_dispatched)
  have new_ok: "dispatch_ok subs ?s' (?b, ?qs, trig)"
    using len dqs p_dis idx process_batch_delivered[OF ne dqs empty, of trig]
    by (simp add: dispatch_ok_def)
  have old_ok: "dispatch_ok subs ?s' d" if "d \<in> set (dispatched s)" for d
  proof -
    obtain b0 qs0 t0 where dd: "d = (b0, qs0, t0)" by (cases d) auto
    have ok: "dispatch_ok subs s (b0, qs0, t0)" using dok[OF that] by (simp add: dd)
    then have dq: "set qs0 \<inter> pending s = {}" by (simp add: dispatch_ok_def)
    then have "set qs0 \<inter> pending ?s' = {}" using p_sub by auto
    moreover have "delivered (process_fn ?s') (slots ?s') b0 qs0 = delivered (process_fn s) (slots s) b0 qs0"
    proof -
      have "slots ?s' q = slots s q" if "q \<in> set qs0" for q
        using that dq qs_pend sl_other by auto
      then show ?thesis using delivered_cong[of qs0 "slots ?s'" "slots s"] by simp
    qed
    ultimately show ?thesis using ok by (simp add: dd dispatch_ok_def)
  qed
  have di: "\<forall>d \<in> set (dispatched ?s'). dispatch_ok subs ?s' d"
    using new_ok old_ok by (auto simp: disp)
  show ?thesis using q' t d sl di unfolding slots_inv_def threads_ok_nth by simp
qed

lemma process_batch_threads_update:
  "(fst (process_batch b qs trig (s\<lparr>threads := X\<rparr>)))\<lparr>threads := T\<rparr> =
   (fst (process_batch b qs trig s))\<lparr>threads := T\<rparr>"
  by (simp add: process_batch_def Let_def split: fn_result.splits)

lemma inv_loop_got:
  assumes inv: "slots_inv subs s"
  shows "slots_inv subs (loop_got now i s)"
proof (cases "i < length (threads s) \<and> in_get (pc (threads s ! i)) \<and> request_queue s \<noteq> []")
  case False
  then show ?thesis using inv by (auto simp: loop_got_unfold split: list.splits)
next
  case True
  then have i: "i < length (threads s)" by simp
  from True obtain r q rest where hd: "request_queue s = (r, q) # rest"
    by (cases "request_queue s") auto
  let ?th = "threads s ! i"
  let ?b = "batch ?th @ [r]"
  let ?qs = "result_queues ?th @ [q]"
  let ?th' = "?th\<lparr>pc := AtLoopTest, batch := ?b, result_queues := ?qs\<rparr>"
  let ?sm = "s\<lparr>request_queue := rest, threads := (threads s)[i := ?th']\<rparr>"
  have moved: "slots_inv subs ?sm" using inv i hd by (rule inv_move) simp
  show ?thesis
  proof (cases "int (length ?b) \<ge> max_batch_size s")
    case False
    then have "loop_got now i s = ?sm" using True hd by (simp add: loop_got_unfold Let_def)
    then show ?thesis using moved by simp
  next
    case full: True
    let ?reset = "after_dispatch now ?th (snd (process_batch ?b ?qs False s))"
    have im: "i < length (threads ?sm)" using i by simp
    have bm: "batch (threads ?sm ! i) = ?b" "result_queues (threads ?sm ! i) = ?qs"
      using i by simp_all
    have "slots_inv subs
           ((fst (process_batch (batch (threads ?sm ! i)) (result_queues (threads ?sm ! i)) False ?sm))
              \<lparr>threads := (threads ?sm)[i := ?reset]\<rparr>)"
      using moved im by (rule inv_dispatch) (simp_all add: i)
    moreover have esc: "snd (process_batch ?b ?qs False (s\<lparr>request_queue := rest\<rparr>))
                      = snd (process_batch ?b ?qs False s)"
      by (simp add: process_batch_escapes)
    moreover have "loop_got now i s =
           (fst (process_batch (batch (threads ?sm ! i)) (result_queues (threads ?sm ! i)) False ?sm))
              \<lparr>threads := (threads ?sm)[i := ?reset]\<rparr>"
    proof -
      have "?sm = (s\<lparr>request_queue := rest\<rparr>)\<lparr>threads := (threads s)[i := ?th']\<rparr>" by simp
      then have "(fst (process_batch ?b ?qs False ?sm))\<lparr>threads := (threads s)[i := ?reset]\<rparr>
            = (fst (process_batch ?b ?qs False (s\<lparr>request_queue := rest\<rparr>)))\<lparr>threads := (threads s)[i := ?reset]\<rparr>"
        by (simp only: process_batch_threads_update)
      then show ?thesis using True hd full esc
        by (simp add: loop_got_unfold Let_def bm)
    qed
    ultimately show ?thesis by simp
  qed
qed

lemma inv_loop_empty:
  assumes inv: "slots_inv subs s"
  shows "slots_inv subs (loop_empty now i s)"
proof (cases "i < length (threads s) \<and> in_get (pc (threads s ! i)) \<and> request_queue s = []")
  case False
  then show ?thesis using inv by (auto simp: loop_empty_unfold)
next
  case True
  then have i: "i < length (threads s)" by simp
  show ?thesis
  proof (cases "batch (threads s ! i) = []")
    case True
    have "slots_inv subs (s\<lparr>threads := (threads s)
             [i := (threads s ! i)\<lparr>pc := AtLoopTest, last_batch_time := now\<rparr>]\<rparr>)"
      using inv i by (rule inv_thread_same) simp_all
    then show ?thesis using True \<open>i < length (threads s) \<and> _\<close> by (simp add: loop_empty_unfold Let_def)
  next
    case False
    let ?reset = "after_dispatch now (threads s ! i)
                    (snd (process_batch (batch (threads s ! i)) (result_queues (threads s ! i)) True s))"
    have "slots_inv subs
           ((fst (process_batch (batch (threads s ! i)) (result_queues (threads s ! i)) True s))
              \<lparr>threads := (threads s)[i := ?reset]\<rparr>)"
      using inv i False by (rule inv_dispatch) simp_all
    then show ?thesis using False True by (simp add: loop_empty_unfold Let_def)
  qed
qed

lemma submitted_snoc:
  "submitted (evs @ [e]) = submitted evs @ (case e of Submit r \<Rightarrow> [r] | _ \<Rightarrow> [])"
  by (induction evs rule: submitted.induct) (auto split: event.splits)

lemma inv_step:
  assumes inv: "slots_inv subs s"
  shows "slots_inv (subs @ (case e of Submit r \<Rightarrow> [r] | _ \<Rightarrow> [])) (step e s)"
  using inv
  by (cases e) (simp_all add: inv_start inv_stop inv_submit inv_loop_test inv_loop_got inv_loop_empty)

lemma inv_init: "slots_inv [] (BatchProcessor n t fn)"
  by (simp add: slots_inv_def queue_ok_def threads_disjoint_def slots_ok_def pending_def
        BatchProcessor_def)

lemma inv_run: "slots_inv (submitted evs) (run evs (BatchProcessor n t fn))"
proof (induction evs rule: rev_induct)
  case Nil
  show ?case by (simp add: run_def inv_init)
next
  case (snoc e evs)
  show ?case using inv_step[OF snoc.IH, of e] by (simp add: run_snoc submitted_snoc)
qed

text \<open>
  Claim C1, as stated, fails.  The handler of \<open>_process_batch\<close> is
  \<open>except Exception\<close>, and the loop around it catches \<open>Empty\<close> only.  When the
  compute function raises an exception outside \<open>Exception\<close> (\<open>SystemExit\<close>, say),
  the batch has been handed to it, yet no result queue of the batch is written: both callers
  end with \<open>TimeoutError\<close>, and the dispatch thread is gone while \<open>running\<close> still
  holds.
\<close>

theorem completion_slots_counterexample:
  "dispatched (run [Start 0, LoopTest 0 0, Submit (1::nat), GetItem 0 1,
       LoopTest 0 1, Submit 2, GetItem 0 2]
       (BatchProcessor 2 5000 (Some (\<lambda>b. RaisedBase ''exit''))))
     = [([1, 2], [0, 1], False)] \<and>
   compute (Some (\<lambda>b. RaisedBase ''exit'')) [1::nat, 2] = RaisedBase ''exit'' \<and>
   slots (run [Start 0, LoopTest 0 0, Submit (1::nat), GetItem 0 1,
       LoopTest 0 1, Submit 2, GetItem 0 2]
       (BatchProcessor 2 5000 (Some (\<lambda>b. RaisedBase ''exit'')))) 0 = [] \<and>
   slots (run [Start 0, LoopTest 0 0, Submit (1::nat), GetItem 0 1,
       LoopTest 0 1, Submit 2, GetItem 0 2]
       (BatchProcessor 2 5000 (Some (\<lambda>b. RaisedBase ''exit'')))) 1 = [] \<and>
   process_wait 0 (run [Start 0, LoopTest 0 0, Submit (1::nat), GetItem 0 1,
       LoopTest 0 1, Submit 2, GetItem 0 2]
       (BatchProcessor 2 5000 (Some (\<lambda>b. RaisedBase ''exit'')))) = None \<and>
   process_wait 1 (run [Start 0, LoopTest 0 0, Submit (1::nat), GetItem 0 1,
       LoopTest 0 1, Submit 2, GetItem 0 2]
       (BatchProcessor 2 5000 (Some (\<lambda>b. RaisedBase ''exit'')))) = None \<and>
   map pc (threads (run [Start 0, LoopTest 0 0, Submit (1::nat), GetItem 0 1,
       LoopTest 0 1, Submit 2, GetItem 0 2]
       (BatchProcessor 2 5000 (Some (\<lambda>b. RaisedBase ''exit''))))) = [Died] \<and>
   running (run [Start 0, LoopTest 0 0, Submit (1::nat), GetItem 0 1,
       LoopTest 0 1, Submit 2, GetItem 0 2]
       (BatchProcessor 2 5000 (Some (\<lambda>b. RaisedBase ''exit''))))"
  by (simp add: run_def BatchProcessor_def start_def process_enqueue_def loop_test_def
        loop_got_def process_batch_def after_dispatch_def process_wait_def compute_def Let_def)

text \<open>
  Claim C1, amended.  In every run of the processor, every batch handed to the compute
  function has one result queue per request, all different, the \<open>i\<close>-th being the queue
  created for the \<open>i\<close>-th request of the batch.  If the compute function returned a list
  of the batch's length, the \<open>i\<close>-th queue has received exactly one value, the
  \<open>i\<close>-th result, and that is what the caller's \<open>get\<close> returns.  If it raised an
  exception of class \<open>Exception\<close>, every queue of the batch has received exactly one
  value, the error.  If it raised an exception outside \<open>Exception\<close>, no queue of the
  batch has received a value and every caller's \<open>get\<close> times out.  No result queue ever
  receives a second value.
\<close>

theorem completion_slots_written_once:
  assumes s: "s = run evs (BatchProcessor n t fn)"
  shows "(\<forall>(b, qs, trig) \<in> set (dispatched s).
            length qs = length b \<and> distinct qs \<and>
            (\<forall>i < length b. qs ! i < length (submitted evs) \<and> submitted evs ! (qs ! i) = b ! i) \<and>
            (case compute fn b of
               Returned results \<Rightarrow>
                 length results = length b \<longrightarrow>
                   (\<forall>i < length b. slots s (qs ! i) = [Result (results ! i)] \<and>
                                    process_wait (qs ! i) s = Some (Result (results ! i)))
             | Raised e \<Rightarrow>
                 (\<forall>i < length b. slots s (qs ! i) = [ErrorDict e] \<and>
                                  process_wait (qs ! i) s = Some (ErrorDict e))
             | RaisedBase e \<Rightarrow>
                 (\<forall>i < length b. slots s (qs ! i) = [] \<and>
                                  process_wait (qs ! i) s = None))) \<and>
         (\<forall>q. length (slots s q) \<le> 1)"
proof -
  have inv: "slots_inv (submitted evs) s" unfolding s by (rule inv_run)
  have fn: "process_fn s = fn" by (simp add: s BatchProcessor_def)
  have "length (slots s q) \<le> 1" for q using inv by (simp add: slots_inv_def slots_ok_def)
  moreover have "length qs = length b \<and> distinct qs \<and>
            (\<forall>i < length b. qs ! i < length (submitted evs) \<and> submitted evs ! (qs ! i) = b ! i) \<and>
            (case compute fn b of
               Returned results \<Rightarrow>
                 length results = length b \<longrightarrow>
                   (\<forall>i < length b. slots s (qs ! i) = [Result (results ! i)] \<and>
                                    process_wait (qs ! i) s = Some (Result (results ! i)))
             | Raised e \<Rightarrow>
                 (\<forall>i < length b. slots s (qs ! i) = [ErrorDict e] \<and>
                                  process_wait (qs ! i) s = Some (ErrorDict e))
             | RaisedBase e \<Rightarrow>
                 (\<forall>i < length b. slots s (qs ! i) = [] \<and>
                                  process_wait (qs ! i) s = None))"
    if "(b, qs, trig) \<in> set (dispatched s)" for b qs trig
  proof -
    have ok: "dispatch_ok (submitted evs) s (b, qs, trig)"
      using inv that by (simp add: slots_inv_def)
    then have len: "length qs = length b" and d: "distinct qs"
      and idx: "\<forall>i < length b. qs ! i < length (submitted evs) \<and> submitted evs ! (qs ! i) = b ! i"
      and del: "delivered fn (slots s) b qs"
      by (simp_all add: dispatch_ok_def fn)
    show ?thesis
    proof (cases "compute fn b")
      case (Raised e)
      then show ?thesis using len d idx del
        by (simp add: delivered_def process_wait_def)
    next
      case (RaisedBase e)
      then show ?thesis using len d idx del
        by (simp add: delivered_def process_wait_def)
    next
      case (Returned results)
      then show ?thesis using len d idx del
        by (simp add: delivered_def process_wait_def)
    qed
  qed
  ultimately show ?thesis by auto
qed

theorem completion_slots_written_once_witness:
  "dispatched (run [Start 0, LoopTest 0 0, Submit (1::nat), GetItem 0 1,
       LoopTest 0 1, Submit 2, GetItem 0 2] (BatchProcessor 2 5000 (Some (\<lambda>b. Returned (map Suc b)))))
     = [([1, 2], [0, 1], False)] \<and>
   compute (Some (\<lambda>b. Returned (map Suc b))) [1, 2] = Returned [2, 3] \<and>
   slots (run [Start 0, LoopTest 0 0, Submit (1::nat), GetItem 0 1,
       LoopTest 0 1, Submit 2, GetItem 0 2] (BatchProcessor 2 5000 (Some (\<lambda>b. Returned (map Suc b))))) 0
     = [Result 2] \<and>
   slots (run [Start 0, LoopTest 0 0, Submit (1::nat), GetItem 0 1,
       LoopTest 0 1, Submit 2, GetItem 0 2] (BatchProcessor 2 5000 (Some (\<lambda>b. Returned (map Suc b))))) 1
     = [Result 3]"
proof -
  let ?evs = "[Start 0, LoopTest 0 0, Submit (1::nat), GetItem 0 1,
       LoopTest 0 1, Submit 2, GetItem 0 2]"
  let ?fn = "Some (\<lambda>b. Returned (map Suc b)) :: (nat list \<Rightarrow> nat fn_result) option"
  have ev: "dispatched (run ?evs (BatchProcessor 2 5000 ?fn)) = [([1, 2], [0, 1], False)]"
    by code_simp
  have c: "compute ?fn [1, 2] = Returned [2, 3]" by (simp add: compute_def)
  define S where "S = run ?evs (BatchProcessor 2 5000 ?fn)"
  have mem: "([1, 2], [0, 1], False) \<in> set (dispatched S)"
    unfolding S_def by (simp only: ev list.set insertI1)
  have "\<forall>(b, qs, trig) \<in> set (dispatched S).
          (case compute ?fn b of
             Returned results \<Rightarrow> length results = length b \<longrightarrow>
                (\<forall>i < length b. slots S (qs ! i) = [Result (results ! i)] \<and>
                                    process_wait (qs ! i) S = Some (Result (results ! i)))
           | Raised e \<Rightarrow> (\<forall>i < length b. slots S (qs ! i) = [ErrorDict e] \<and>
                                  process_wait (qs ! i) S = Some (ErrorDict e))
           | RaisedBase e \<Rightarrow> (\<forall>i < length b. slots S (qs ! i) = [] \<and>
                                  process_wait (qs ! i) S = None))"
    using completion_slots_written_once [OF S_def] by fast
  with mem have all: "\<forall>i < length [1::nat, 2]. slots S ([0, 1] ! i) = [Result ([2, 3] ! i)]"
    using c by fastforce
  have "slots S ([0, 1] ! 0) = [Result ([2, 3] ! 0)]" "slots S ([0, 1] ! 1) = [Result ([2, 3] ! 1)]"
    using all[rule_format, of 0] all[rule_format, of 1] by simp_all
  then have "slots S 0 = [Result 2]" "slots S 1 = [Result 3]" by simp_all
  then show ?thesis using ev c unfolding S_def by blast
qed

subsection \<open>The batch window\<close>

text \<open>
  Claim C6, as stated, fails.  A thread that waits with an empty batch calls \<open>get\<close>
  with a timeout (here the full 20 ms), not without a deadline; and a request that arrives
  15 ms after the last reset joins the empty batch without moving \<open>last_batch_time\<close>,
  so the next wait is 5 ms and the batch is dispatched as timed out 5 ms, not 20 ms, after
  its first request.
\<close>

theorem batch_window_counterexample:
  "map pc (threads (run [Start 0, LoopTest 0 0] (BatchProcessor 2 20 None :: nat batch_processor)))
     = [InGet (Some (1 / 50))] \<and>
   map batch (threads (run [Start 0, LoopTest 0 0] (BatchProcessor 2 20 None :: nat batch_processor)))
     = [[]] \<and>
   map batch (threads (run [Start 0, LoopTest 0 0, Submit (7::nat), GetItem 0 (3 / 200)]
                         (BatchProcessor 2 20 None))) = [[7]] \<and>
   map last_batch_time (threads (run [Start 0, LoopTest 0 0, Submit (7::nat), GetItem 0 (3 / 200)]
                                   (BatchProcessor 2 20 None))) = [0] \<and>
   map pc (threads (run [Start 0, LoopTest 0 0, Submit (7::nat), GetItem 0 (3 / 200),
                         LoopTest 0 (3 / 200)] (BatchProcessor 2 20 None)))
     = [InGet (Some (1 / 200))] \<and>
   dispatched (run [Start 0, LoopTest 0 0, Submit (7::nat), GetItem 0 (3 / 200),
                    LoopTest 0 (3 / 200), GetEmpty 0 (1 / 50)] (BatchProcessor 2 20 None))
     = [([7], [0], True)]"
  by (simp add: run_def BatchProcessor_def start_def process_enqueue_def loop_test_def
        loop_got_def loop_empty_def process_batch_def after_dispatch_def compute_def
        update_metrics_def Let_def)

text \<open>
  Claim C6, amended.  The window is anchored at \<open>last_batch_time\<close>, not at the first
  request of the batch.  Every wait for the next request, with an empty batch or not, has
  the timeout \<open>max(0, timeout_ms - (now - last_batch_time))\<close>.  A request that joins the
  batch without filling it leaves \<open>last_batch_time\<close> as it is; one that fills it is
  dispatched as full and sets \<open>last_batch_time\<close> to now.  When a wait expires, a
  non-empty batch is dispatched with the \<open>timeout\<close> flag, and \<open>last_batch_time\<close> is
  set to now whether or not there was a batch.  (The statements after a dispatch are reached
  when the call of \<open>_process_batch\<close> returns; an exception of the compute function
  outside \<open>Exception\<close> ends the thread there, the batch being recorded as dispatched.)
\<close>

theorem batch_window_anchor:
  assumes i: "i < length (threads s)"
  shows "(pc (threads s ! i) = AtLoopTest \<and> running s \<longrightarrow>
            threads (loop_test now i s) ! i =
              (threads s ! i)\<lparr>pc := InGet (Some (max 0
                 (timeout_ms s - (now - last_batch_time (threads s ! i)))))\<rparr>) \<and>
         (in_get (pc (threads s ! i)) \<and> request_queue s = (r, q) # rest \<and>
          int (length (batch (threads s ! i))) + 1 < max_batch_size s \<longrightarrow>
            threads (loop_got now i s) ! i =
              (threads s ! i)\<lparr>pc := AtLoopTest, batch := batch (threads s ! i) @ [r],
                               result_queues := result_queues (threads s ! i) @ [q]\<rparr> \<and>
            last_batch_time (threads (loop_got now i s) ! i) = last_batch_time (threads s ! i) \<and>
            dispatched (loop_got now i s) = dispatched s) \<and>
         (in_get (pc (threads s ! i)) \<and> request_queue s = (r, q) # rest \<and>
          max_batch_size s \<le> int (length (batch (threads s ! i))) + 1 \<longrightarrow>
            threads (loop_got now i s) ! i =
              (case compute (process_fn s) (batch (threads s ! i) @ [r]) of
                 RaisedBase e \<Rightarrow>
                   \<lparr>pc = Died, batch = [], result_queues = [],
                    last_batch_time = last_batch_time (threads s ! i)\<rparr>
               | _ \<Rightarrow>
                   \<lparr>pc = AtLoopTest, batch = [], result_queues = [], last_batch_time = now\<rparr>) \<and>
            dispatched (loop_got now i s) =
              dispatched s @ [(batch (threads s ! i) @ [r],
                               result_queues (threads s ! i) @ [q], False)]) \<and>
         (in_get (pc (threads s ! i)) \<and> request_queue s = [] \<longrightarrow>
            threads (loop_empty now i s) ! i =
              (if batch (threads s ! i) = []
               then (threads s ! i)\<lparr>pc := AtLoopTest, last_batch_time := now\<rparr>
               else case compute (process_fn s) (batch (threads s ! i)) of
                      RaisedBase e \<Rightarrow>
                        \<lparr>pc = Died, batch = [], result_queues = [],
                         last_batch_time = last_batch_time (threads s ! i)\<rparr>
                    | _ \<Rightarrow>
                        \<lparr>pc = AtLoopTest, batch = [], result_queues = [], last_batch_time = now\<rparr>) \<and>
            dispatched (loop_empty now i s) =
              dispatched s @
                (if batch (threads s ! i) = [] then []
                 else [(batch (threads s ! i), result_queues (threads s ! i), True)]))"
proof (intro conjI impI)
  assume "pc (threads s ! i) = AtLoopTest \<and> running s"
  then show "threads (loop_test now i s) ! i =
              (threads s ! i)\<lparr>pc := InGet (Some (max 0
                 (timeout_ms s - (now - last_batch_time (threads s ! i)))))\<rparr>"
    using i by (simp add: loop_test_def Let_def)
next
  assume a: "in_get (pc (threads s ! i)) \<and> request_queue s = (r, q) # rest \<and>
          int (length (batch (threads s ! i))) + 1 < max_batch_size s"
  then have eq: "loop_got now i s = s\<lparr>request_queue := rest, threads := (threads s)[i :=
              (threads s ! i)\<lparr>pc := AtLoopTest, batch := batch (threads s ! i) @ [r],
                               result_queues := result_queues (threads s ! i) @ [q]\<rparr>]\<rparr>"
    using i by (simp add: loop_got_unfold Let_def)
  show "threads (loop_got now i s) ! i =
              (threads s ! i)\<lparr>pc := AtLoopTest, batch := batch (threads s ! i) @ [r],
                               result_queues := result_queues (threads s ! i) @ [q]\<rparr>"
    "last_batch_time (threads (loop_got now i s) ! i) = last_batch_time (threads s ! i)"
    "dispatched (loop_got now i s) = dispatched s"
    using i by (simp_all add: eq)
next
  assume a: "in_get (pc (threads s ! i)) \<and> request_queue s = (r, q) # rest \<and>
          max_batch_size s \<le> int (length (batch (threads s ! i))) + 1"
  then show "threads (loop_got now i s) ! i =
              (case compute (process_fn s) (batch (threads s ! i) @ [r]) of
                 RaisedBase e \<Rightarrow>
                   \<lparr>pc = Died, batch = [], result_queues = [],
                    last_batch_time = last_batch_time (threads s ! i)\<rparr>
               | _ \<Rightarrow>
                   \<lparr>pc = AtLoopTest, batch = [], result_queues = [], last_batch_time = now\<rparr>)"
    "dispatched (loop_got now i s) =
              dispatched s @ [(batch (threads s ! i) @ [r],
                               result_queues (threads s ! i) @ [q], False)]"
    using i by (simp_all add: loop_got_unfold Let_def process_batch_dispatched
                  process_batch_escapes after_dispatch_def split: fn_result.splits)
next
  assume a: "in_get (pc (threads s ! i)) \<and> request_queue s = []"
  then show "threads (loop_empty now i s) ! i =
              (if batch (threads s ! i) = []
               then (threads s ! i)\<lparr>pc := AtLoopTest, last_batch_time := now\<rparr>
               else case compute (process_fn s) (batch (threads s ! i)) of
                      RaisedBase e \<Rightarrow>
                        \<lparr>pc = Died, batch = [], result_queues = [],
                         last_batch_time = last_batch_time (threads s ! i)\<rparr>
                    | _ \<Rightarrow>
                        \<lparr>pc = AtLoopTest, batch = [], result_queues = [], last_batch_time = now\<rparr>)"
    "dispatched (loop_empty now i s) =
              dispatched s @
                (if batch (threads s ! i) = [] then []
                 else [(batch (threads s ! i), result_queues (threads s ! i), True)])"
    using i by (simp_all add: loop_empty_unfold Let_def process_batch_dispatched
                  process_batch_escapes after_dispatch_def split: fn_result.splits)
qed

theorem batch_window_anchor_witness:
  "0 < length (threads (run [Start 0, LoopTest 0 0, Submit (7::nat)] (BatchProcessor 2 20 None))) \<and>
   in_get (pc (threads (run [Start 0, LoopTest 0 0, Submit (7::nat)] (BatchProcessor 2 20 None)) ! 0)) \<and>
   request_queue (run [Start 0, LoopTest 0 0, Submit (7::nat)] (BatchProcessor 2 20 None)) = [(7, 0)] \<and>
   int (length (batch (threads (run [Start 0, LoopTest 0 0, Submit (7::nat)]
                                  (BatchProcessor 2 20 None)) ! 0))) + 1
     < max_batch_size (run [Start 0, LoopTest 0 0, Submit (7::nat)] (BatchProcessor 2 20 None)) \<and>
   last_batch_time (threads (loop_got (3 / 200) 0
       (run [Start 0, LoopTest 0 0, Submit (7::nat)] (BatchProcessor 2 20 None))) ! 0) = 0"
proof -
  define s where "s = run [Start 0, LoopTest 0 0, Submit (7::nat)] (BatchProcessor 2 20 None)"
  have i: "0 < length (threads s)"
    and g: "in_get (pc (threads s ! 0))"
    and q: "request_queue s = (7, 0) # []"
    and m: "int (length (batch (threads s ! 0))) + 1 < max_batch_size s"
    and l: "last_batch_time (threads s ! 0) = 0"
    unfolding s_def
    by (simp_all add: run_def BatchProcessor_def start_def process_enqueue_def loop_test_def Let_def)
  from batch_window_anchor [OF i, where r = 7 and q = 0 and rest = "[]" and now = "3 / 200"] g q m
  have "last_batch_time (threads (loop_got (3 / 200) 0 s) ! 0) = last_batch_time (threads s ! 0)"
    by blast
  then show ?thesis using i g q m l unfolding s_def by simp
qed

subsection \<open>Stopping\<close>

lemma exited_step:
  assumes ex: "\<forall>th \<in> set (threads s). pc th = Exited" and ns: "\<not> is_start e"
  shows "threads (step e s) = threads s \<and> slots (step e s) = slots s \<and>
         dispatched (step e s) = dispatched s \<and>
         map fst (request_queue (step e s)) = map fst (request_queue s) @ submitted [e] \<and>
         total_requests (metrics (step e s)) = total_requests (metrics s) + int (length (submitted [e]))"
proof (cases e)
  case (Start now)
  then show ?thesis using ns by simp
next
  case Stop
  then show ?thesis by (simp add: stop_def)
next
  case (Submit r)
  then show ?thesis by (simp add: process_enqueue_def Let_def)
next
  case (LoopTest i now)
  have "loop_test now i s = s"
    using ex by (auto simp: loop_test_def Let_def)
  then show ?thesis using LoopTest by simp
next
  case (GetItem i now)
  have "i < length (threads s) \<Longrightarrow> \<not> in_get (pc (threads s ! i))" using ex by simp
  then have "loop_got now i s = s" by (auto simp: loop_got_unfold)
  then show ?thesis using GetItem by simp
next
  case (GetEmpty i now)
  have "i < length (threads s) \<Longrightarrow> \<not> in_get (pc (threads s ! i))" using ex by simp
  then have "loop_empty now i s = s" by (auto simp: loop_empty_unfold)
  then show ?thesis using GetEmpty by simp
qed

lemma submitted_Cons: "submitted (e # evs) = submitted [e] @ submitted evs"
  by (cases e) simp_all

lemma exited_run:
  assumes "\<forall>th \<in> set (threads s). pc th = Exited" and "\<forall>e \<in> set evs. \<not> is_start e"
  shows "threads (run evs s) = threads s \<and> slots (run evs s) = slots s \<and>
         dispatched (run evs s) = dispatched s \<and>
         map fst (request_queue (run evs s)) = map fst (request_queue s) @ submitted evs \<and>
         total_requests (metrics (run evs s)) = total_requests (metrics s) + int (length (submitted evs))"
  using assms
proof (induction evs arbitrary: s)
  case Nil
  then show ?case by (simp add: run_def)
next
  case (Cons e evs)
  have ns: "\<not> is_start e" using Cons.prems(2) by simp
  note st = exited_step[OF Cons.prems(1) ns]
  have ex': "\<forall>th \<in> set (threads (step e s)). pc th = Exited" using st Cons.prems(1) by simp
  have rest: "\<forall>e \<in> set evs. \<not> is_start e" using Cons.prems(2) by simp
  have r: "run (e # evs) s = run evs (step e s)" by (simp add: run_def)
  from Cons.IH[OF ex' rest] st show ?case
    unfolding r submitted_Cons[of e evs] by simp
qed

text \<open>
  Claim C8, as stated, fails.  A request that sits in a partial batch when \<open>stop\<close> is
  called is never answered: the thread leaves its loop at the next test, the result queue
  stays empty and the caller's wait ends with \<open>TimeoutError\<close>; a later \<open>process\<close>
  is still put on the request queue.  And the stopped state is not terminal: after
  \<open>stop\<close> and \<open>start\<close> the processor runs again and a later request is answered.
\<close>

theorem stop_counterexample:
  "process_wait 0 (run [Start 0, LoopTest 0 0, Submit (7::nat), GetItem 0 (1 / 100), Stop,
       LoopTest 0 (1 / 100), Submit 8, GetItem 0 (1 / 50), GetEmpty 0 (1 / 50)] (BatchProcessor 2 20 None)) = None \<and>
   map pc (threads (run [Start 0, LoopTest 0 0, Submit (7::nat), GetItem 0 (1 / 100), Stop,
       LoopTest 0 (1 / 100), Submit 8, GetItem 0 (1 / 50), GetEmpty 0 (1 / 50)] (BatchProcessor 2 20 None)))
     = [Exited] \<and>
   map batch (threads (run [Start 0, LoopTest 0 0, Submit (7::nat), GetItem 0 (1 / 100), Stop,
       LoopTest 0 (1 / 100), Submit 8, GetItem 0 (1 / 50), GetEmpty 0 (1 / 50)] (BatchProcessor 2 20 None)))
     = [[7]] \<and>
   request_queue (run [Start 0, LoopTest 0 0, Submit (7::nat), GetItem 0 (1 / 100), Stop,
       LoopTest 0 (1 / 100), Submit 8, GetItem 0 (1 / 50), GetEmpty 0 (1 / 50)] (BatchProcessor 2 20 None))
     = [(8, 1)] \<and>
   running (run [Start 0, Stop, Start 1] (BatchProcessor 1 20 None :: nat batch_processor)) \<and>
   process_wait 0 (run [Start 0, Stop, LoopTest 0 0, Start 1, LoopTest 1 1, Submit (9::nat),
       GetItem 1 (101 / 100)]
                     (BatchProcessor 1 20 None)) = Some (Result 9)"
  by (simp add: run_def BatchProcessor_def start_def stop_def process_enqueue_def loop_test_def
        loop_got_def loop_empty_def process_batch_def after_dispatch_def process_wait_def
        compute_def Let_def update_metrics_def)

text \<open>
  Claim C8, amended.  \<open>stop\<close> clears the \<open>running\<close> flag and writes no result
  queue.  A dispatch thread that then reaches its loop test returns, with its partial batch
  not dispatched.  Once every dispatch thread has returned, and as long as \<open>start\<close> is
  not called, no result queue is written and nothing is dispatched: a caller whose result
  queue was empty gets \<open>TimeoutError\<close>, while every later \<open>process\<close> still puts its
  request on the request queue and counts it.  \<open>start\<close> after \<open>stop\<close> sets the flag
  and starts a new dispatch thread.
\<close>

theorem stop_leaves_pending_unanswered:
  "\<not> running (stop s) \<and> slots (stop s) = slots s \<and> request_queue (stop s) = request_queue s \<and>
   threads (stop s) = threads s \<and> dispatched (stop s) = dispatched s \<and>
   (i < length (threads s) \<and> pc (threads s ! i) = AtLoopTest \<and> \<not> running s \<longrightarrow>
      loop_test now i s = s\<lparr>threads := (threads s)[i := (threads s ! i)\<lparr>pc := Exited\<rparr>]\<rparr>) \<and>
   ((\<forall>th \<in> set (threads s). pc th = Exited) \<and> (\<forall>e \<in> set evs. \<not> is_start e) \<longrightarrow>
      slots (run evs s) = slots s \<and> dispatched (run evs s) = dispatched s \<and>
      threads (run evs s) = threads s \<and>
      (\<forall>q. slots s q = [] \<longrightarrow> process_wait q (run evs s) = None) \<and>
      map fst (request_queue (run evs s)) = map fst (request_queue s) @ submitted evs \<and>
      total_requests (metrics (run evs s)) =
        total_requests (metrics s) + int (length (submitted evs))) \<and>
   (\<not> running s \<longrightarrow>
      running (start now s) \<and>
      threads (start now s) =
        threads s @ [\<lparr>pc = AtLoopTest, batch = [], result_queues = [], last_batch_time = now\<rparr>])"
proof -
  have a: "\<not> running (stop s) \<and> slots (stop s) = slots s \<and> request_queue (stop s) = request_queue s \<and>
   threads (stop s) = threads s \<and> dispatched (stop s) = dispatched s"
    by (simp add: stop_def)
  have b: "i < length (threads s) \<and> pc (threads s ! i) = AtLoopTest \<and> \<not> running s \<longrightarrow>
      loop_test now i s = s\<lparr>threads := (threads s)[i := (threads s ! i)\<lparr>pc := Exited\<rparr>]\<rparr>"
    by (simp add: loop_test_def Let_def)
  have c: "slots (run evs s) = slots s \<and> dispatched (run evs s) = dispatched s \<and>
      threads (run evs s) = threads s \<and>
      (\<forall>q. slots s q = [] \<longrightarrow> process_wait q (run evs s) = None) \<and>
      map fst (request_queue (run evs s)) = map fst (request_queue s) @ submitted evs \<and>
      total_requests (metrics (run evs s)) =
        total_requests (metrics s) + int (length (submitted evs))"
    if "(\<forall>th \<in> set (threads s). pc th = Exited) \<and> (\<forall>e \<in> set evs. \<not> is_start e)"
  proof -
    from that exited_run[of s evs] have r: "threads (run evs s) = threads s \<and> slots (run evs s) = slots s \<and>
         dispatched (run evs s) = dispatched s \<and>
         map fst (request_queue (run evs s)) = map fst (request_queue s) @ submitted evs \<and>
         total_requests (metrics (run evs s)) = total_requests (metrics s) + int (length (submitted evs))"
      by blast
    then have "\<forall>q. slots s q = [] \<longrightarrow> process_wait q (run evs s) = None"
      by (simp add: process_wait_def)
    with r show ?thesis by blast
  qed
  have d: "\<not> running s \<longrightarrow>
      running (start now s) \<and>
      threads (start now s) =
        threads s @ [\<lparr>pc = AtLoopTest, batch = [], result_queues = [], last_batch_time = now\<rparr>]"
    by (simp add: start_def)
  show ?thesis using a b c d by blast
qed

theorem stop_leaves_pending_unanswered_witness:
  "map pc (threads (run [Start 0, LoopTest 0 0, Submit (7::nat), GetItem 0 (1 / 100), Stop,
       LoopTest 0 (1 / 100)]
                      (BatchProcessor 2 20 None))) = [Exited] \<and>
   filter is_start [Submit (8::nat), GetItem 0 (1 / 50), GetEmpty 0 (1 / 50)] = [] \<and>
   slots (run [Start 0, LoopTest 0 0, Submit (7::nat), GetItem 0 (1 / 100), Stop,
       LoopTest 0 (1 / 100)]
            (BatchProcessor 2 20 None)) 0 = [] \<and>
   process_wait 0 (run [Submit 8, GetItem 0 (1 / 50), GetEmpty 0 (1 / 50)]
       (run [Start 0, LoopTest 0 0, Submit (7::nat), GetItem 0 (1 / 100), Stop,
       LoopTest 0 (1 / 100)]
          (BatchProcessor 2 20 None))) = None \<and>
   map fst (request_queue (run [Submit 8, GetItem 0 (1 / 50), GetEmpty 0 (1 / 50)]
       (run [Start 0, LoopTest 0 0, Submit (7::nat), GetItem 0 (1 / 100), Stop,
       LoopTest 0 (1 / 100)]
          (BatchProcessor 2 20 None)))) = [8]"
proof -
  define s where "s = run [Start 0, LoopTest 0 0, Submit (7::nat), GetItem 0 (1 / 100), Stop,
       LoopTest 0 (1 / 100)]
                        (BatchProcessor 2 20 None)"
  define evs where "evs = [Submit (8::nat), GetItem 0 (1 / 50), GetEmpty 0 (1 / 50)]"
  have pcs: "map pc (threads s) = [Exited]"
    and sl: "slots s 0 = []"
    and rq: "map fst (request_queue s) = []"
    unfolding s_def
    by (simp_all add: run_def BatchProcessor_def start_def stop_def process_enqueue_def
          loop_test_def loop_got_unfold Let_def)
  have ex: "\<forall>th \<in> set (threads s). pc th = Exited"
  proof
    fix th assume "th \<in> set (threads s)"
    then have "pc th \<in> set (map pc (threads s))" by simp
    then show "pc th = Exited" by (simp add: pcs)
  qed
  have ns: "\<forall>e \<in> set evs. \<not> is_start e" by (simp add: evs_def)
  have fs: "filter is_start evs = []" by (simp add: evs_def)
  have sub: "submitted evs = [8]" by (simp add: evs_def)
  from stop_leaves_pending_unanswered [where s = s and evs = evs] ex ns
  have "(\<forall>q. slots s q = [] \<longrightarrow> process_wait q (run evs s) = None) \<and>
        map fst (request_queue (run evs s)) = map fst (request_queue s) @ submitted evs"
    by blast
  then have "process_wait 0 (run evs s) = None \<and> map fst (request_queue (run evs s)) = [8]"
    using sl rq sub by simp
  then show ?thesis using pcs fs sl unfolding s_def evs_def by blast
qed

end
